theory Spec2Isabelle
  imports Main "HOL-Library.Word" "HOL-Library.AList"
begin

section \<open>Remote project snapshot synchronisation (RemoteProjectSnapshot.cpp)\<close>

text \<open>
  The session object of \<^verbatim>\<open>RemoteProjectSnapshot.cpp\<close> is embedded as a record of its
  members. Every member function is a function from sessions to sessions. The callback,
  the network manager, the condition variable and the local database are part of the
  record, so each of their uses is an observable update. The scheduler thread, the
  completion callbacks of the transport and the caller's \<^verbatim>\<open>Cancel()\<close> are put together in
  two ways: as a list of events, each of which runs one turn, one callback or one call
  from its first line to its last, and as threads that interleave access by access.
\<close>

subsection \<open>Data\<close>

type_synonym byte = "8 word"

text \<open>\<^verbatim>\<open>ProjectInfo::Id\<close>; \<^verbatim>\<open>SnapshotInfo::{Id, FileUrl, Blocks}\<close> with blocks \<^verbatim>\<open>{Hash, Url}\<close>.\<close>

record ProjectInfo =
  PId :: string

record SnapshotBlockInfo =
  Hash :: string
  Url :: string

record SnapshotInfo =
  SId :: string
  FileUrl :: string
  Blocks :: "SnapshotBlockInfo list"

text \<open>
  Modelled from the spec: \<^verbatim>\<open>DBProjectData\<close> of CloudProjectsDatabase.h, which is not among
  the sources. These are the five fields that \<^verbatim>\<open>MarkProjectInDB\<close> assigns, with the two
  status values the code names.
\<close>

datatype SyncStatusType = SyncStatusSynced | SyncStatusDownloading

record DBProjectData =
  ProjectId :: string
  SnapshotId :: string
  SyncStatus :: SyncStatusType
  LastRead :: int
  LocalPath :: string

text \<open>
  Modelled from the spec: \<^verbatim>\<open>RemoteProjectSnapshotState\<close> of RemoteProjectSnapshot.h, which
  is not among the sources. The code builds it positionally; the spec gives the order of
  the fields as downloadedBlocks, missingBlocks, error, projectBlobDownloaded, completed,
  success, cancelled. A field left out of an initialiser list is value-initialised
  (zero, empty, false).
\<close>

record RemoteProjectSnapshotState =
  downloadedBlocks :: nat
  missingBlocks :: nat
  error :: string
  projectBlobDownloaded :: bool
  completed :: bool
  success :: bool
  cancelled :: bool

text \<open>
  The result of \<^verbatim>\<open>DecompressBlock\<close>. The codec is outside the sources; the floating point
  summaries are carried as their bit patterns and the arrays as the bytes that are bound
  to the statement.
\<close>

record DecodedBlock =
  BlockId :: int
  Format :: int
  BlockMin :: "32 word"
  BlockMax :: "32 word"
  BlockRMS :: "32 word"
  Summary256 :: "byte list"
  Summary64k :: "byte list"
  Data :: "byte list"

text \<open>
  The local database: the table \<^verbatim>\<open>block_hashes\<close> keyed by project and block id, the
  attached snapshot's \<^verbatim>\<open>sampleblocks\<close> keyed by block id, its \<^verbatim>\<open>project\<close> row (dictionary
  and document), whether its \<^verbatim>\<open>autosave\<close> row exists, and the project records behind
  \<^verbatim>\<open>GetProjectData\<close> and \<^verbatim>\<open>UpdateProjectData\<close>.
\<close>

record LocalStore =
  block_hashes :: "((string \<times> int) \<times> string) list"
  sampleblocks :: "(int \<times> DecodedBlock) list"
  project :: "(byte list \<times> byte list) option"
  autosave :: bool
  project_data :: "(string \<times> DBProjectData) list"

text \<open>The two closures stored in \<^verbatim>\<open>mRequests\<close>.\<close>

datatype SuccessHandler = ProjectBlobHandler | BlockHandler string

text \<open>
  A response object of the network manager: its identity \<open>rid\<close> (the pointer), the URL
  of its request, and the captures of the finished callback. \<open>req\<close> is the position in
  \<^verbatim>\<open>mRequests\<close> of the request the response belongs to; the code does not read it.
\<close>

record Response =
  rid :: nat
  req :: nat
  rurl :: string
  handler :: SuccessHandler
  retries :: int

datatype ThreadState = NotStarted | Running | Exited

record Session =
  mProjectInfo :: ProjectInfo
  mSnapshotInfo :: SnapshotInfo
  mPath :: string
  mAttached :: bool
  mMissingBlocks :: nat
  mDownloadedBlocks :: nat
  mProjectDownloaded :: bool
  mCancelled :: bool
  mFailed :: bool
  mRequests :: "(string \<times> SuccessHandler) list"
  mNextRequestIndex :: nat
  mRequestsInProgress :: int
  mResponses :: "nat list"
  mRequestsThread :: ThreadState
  store :: LocalStore
  reports :: "RemoteProjectSnapshotState list"
  fetches :: "Response list"
  pending :: "Response list"
  aborted :: "nat list"
  notified :: nat

text \<open>
  \<open>reports\<close> lists the calls of \<^verbatim>\<open>mCallback\<close>, \<open>fetches\<close> the calls of \<^verbatim>\<open>doGet\<close>, \<open>aborted\<close>
  the calls of \<^verbatim>\<open>abort()\<close> and \<open>notified\<close> counts \<^verbatim>\<open>mRequestsCV.notify_one()\<close>, each
  oldest first. \<open>pending\<close> holds the responses whose finished callback has not run yet.
  \<^verbatim>\<open>mRequestsInProgress\<close> is compared with the \<^verbatim>\<open>int\<close> constant 6 and is kept as an integer.
\<close>

text \<open>What the transport and the stores answer when a response finishes.\<close>

datatype NetworkError = NoError | OperationCancelled | HTTPError | OtherError

record Reply =
  getError :: NetworkError
  getHTTPCode :: int
  readAll :: "byte list"
  getErrorString :: string
  decompressed :: "DecodedBlock option"
  stmt1_ok :: bool
  run1_ok :: bool
  stmt2_ok :: bool
  run2_ok :: bool
  commit_ok :: bool
  now :: int

datatype Event = RequestsThreadTurn | RequestFinished nat Reply | CancelCalled

subsection \<open>Construction\<close>

text \<open>Modelled from the spec: \<^verbatim>\<open>ToUpper\<close> of StringUtils.h, upper case of the ASCII letters.\<close>

definition ToUpper_char :: "char \<Rightarrow> char" where
  "ToUpper_char c =
     (let n = (of_char c :: nat) in if 97 \<le> n \<and> n \<le> 122 then char_of (n - 32) else c)"

definition ToUpper :: "string \<Rightarrow> string" where
  "ToUpper s = map ToUpper_char s"

text \<open>
  \<^verbatim>\<open>CalculateKnownBlocks\<close>: the hashes of \<^verbatim>\<open>block_hashes\<close> rows of this project that are
  among the upper-cased remote hashes and whose block id has a row in the attached
  \<^verbatim>\<open>sampleblocks\<close>. When the statement cannot be created the set is empty.
\<close>

definition CalculateKnownBlocks ::
  "bool \<Rightarrow> LocalStore \<Rightarrow> ProjectInfo \<Rightarrow> SnapshotInfo \<Rightarrow> string set" where
  "CalculateKnownBlocks statement_ok db p snap =
     (let remoteBlocks = set (map (\<lambda>b. ToUpper (Hash b)) (Blocks snap)) in
      if \<not> statement_ok then {}
      else set (map snd
             (filter (\<lambda>row. fst (fst row) = PId p \<and> snd row \<in> remoteBlocks \<and>
                             snd (fst row) \<in> set (map fst (sampleblocks db)))
                (block_hashes db))))"

definition mCallback :: "RemoteProjectSnapshotState \<Rightarrow> Session \<Rightarrow> Session" where
  "mCallback st s = s\<lparr>reports := reports s @ [st]\<rparr>"

definition MarkProjectInDB :: "bool \<Rightarrow> int \<Rightarrow> Session \<Rightarrow> Session" where
  "MarkProjectInDB successfulDownload time s =
     (let db = store s;
          pid = PId (mProjectInfo s);
          currentData = map_of (project_data db) pid;
          data = (case currentData of
                    Some d \<Rightarrow> d
                  | None \<Rightarrow> \<lparr>ProjectId = [], SnapshotId = [], SyncStatus = SyncStatusSynced,
                             LastRead = 0, LocalPath = []\<rparr>);
          data = data\<lparr>ProjectId := pid,
                      SnapshotId := SId (mSnapshotInfo s),
                      SyncStatus := (if successfulDownload then SyncStatusSynced
                                     else SyncStatusDownloading),
                      LastRead := time,
                      LocalPath := mPath s\<rparr>
      in s\<lparr>store := db\<lparr>project_data := AList.update pid data (project_data db)\<rparr>\<rparr>)"

definition block_requests ::
  "string set \<Rightarrow> SnapshotBlockInfo list \<Rightarrow> (string \<times> SuccessHandler) list" where
  "block_requests knownBlocks bs =
     map (\<lambda>b. (Url b, BlockHandler (ToUpper (Hash b))))
       (filter (\<lambda>b. ToUpper (Hash b) \<notin> knownBlocks) bs)"

definition new_session :: "LocalStore \<Rightarrow> ProjectInfo \<Rightarrow> SnapshotInfo \<Rightarrow> string \<Rightarrow> Session" where
  "new_session db projectInfo snapshotInfo path =
     \<lparr>mProjectInfo = projectInfo, mSnapshotInfo = snapshotInfo, mPath = path,
      mAttached = False, mMissingBlocks = 0, mDownloadedBlocks = 0,
      mProjectDownloaded = False, mCancelled = False, mFailed = False,
      mRequests = [], mNextRequestIndex = 0, mRequestsInProgress = 0,
      mResponses = [], mRequestsThread = NotStarted, store = db,
      reports = [], fetches = [], pending = [], aborted = [], notified = 0\<rparr>"

text \<open>
  The constructor. \<open>attach_ok\<close> is the result of the ATTACH statement, \<open>statement_ok\<close>
  whether the known-blocks statement could be created, \<open>time\<close> the clock. The counters
  are natural numbers: the known hashes are never more than the blocks of the list
  (\<open>known_blocks_le\<close> below), so the subtraction does not wrap, and the counter of
  downloaded blocks is only incremented.
\<close>

definition construct ::
  "bool \<Rightarrow> bool \<Rightarrow> int \<Rightarrow> LocalStore \<Rightarrow> ProjectInfo \<Rightarrow> SnapshotInfo \<Rightarrow> string \<Rightarrow> Session" where
  "construct attach_ok statement_ok time db projectInfo snapshotInfo path =
     (let s = (new_session db projectInfo snapshotInfo path)\<lparr>mAttached := attach_ok\<rparr> in
      if \<not> attach_ok then s
      else
        let knownBlocks = CalculateKnownBlocks statement_ok db projectInfo snapshotInfo;
            syncInfo = map_of (project_data db) (PId projectInfo)
        in
          if card knownBlocks = length (Blocks snapshotInfo) \<and>
             (case syncInfo of
                None \<Rightarrow> False
              | Some d \<Rightarrow> SnapshotId d = SId snapshotInfo \<and> SyncStatus d = SyncStatusSynced)
          then mCallback \<lparr>downloadedBlocks = 0, missingBlocks = 0, error = [],
                          projectBlobDownloaded = True, completed = True, success = True,
                          cancelled = False\<rparr> s
          else
            let s = MarkProjectInDB False time s;
                s = s\<lparr>mMissingBlocks := length (Blocks snapshotInfo) - card knownBlocks\<rparr>;
                s = s\<lparr>mRequests := (FileUrl snapshotInfo, ProjectBlobHandler) #
                                     block_requests knownBlocks (Blocks snapshotInfo)\<rparr>
            in s\<lparr>mRequestsThread := Running\<rparr>)"

text \<open>\<^verbatim>\<open>Sync\<close>: no session and one failure report when the database could not be attached.\<close>

definition Sync ::
  "bool \<Rightarrow> bool \<Rightarrow> int \<Rightarrow> LocalStore \<Rightarrow> ProjectInfo \<Rightarrow> SnapshotInfo \<Rightarrow> string
     \<Rightarrow> Session option \<times> RemoteProjectSnapshotState list" where
  "Sync attach_ok statement_ok time db projectInfo snapshotInfo path =
     (let snapshot = construct attach_ok statement_ok time db projectInfo snapshotInfo path in
      if \<not> mAttached snapshot
      then (None,
            reports (mCallback \<lparr>downloadedBlocks = 0, missingBlocks = 0,
                       error = ''Failed to attach to the cloud project database'',
                       projectBlobDownloaded = False, completed = False, success = False,
                       cancelled = False\<rparr> snapshot))
      else (Some snapshot, reports snapshot))"

subsection \<open>Reports, failures and commits\<close>

text \<open>
  \<^verbatim>\<open>RemoveRequest\<close> erases the response from \<^verbatim>\<open>mResponses\<close>, decrements the counter and
  notifies the condition variable.
\<close>

definition RemoveRequest :: "nat \<Rightarrow> Session \<Rightarrow> Session" where
  "RemoveRequest response s =
     s\<lparr>mResponses := filter (\<lambda>r. r \<noteq> response) (mResponses s),
       mRequestsInProgress := mRequestsInProgress s - 1,
       notified := notified s + 1\<rparr>"

definition OnFailure :: "nat \<Rightarrow> string \<Rightarrow> Session \<Rightarrow> Session" where
  "OnFailure response err s =
     (let s = s\<lparr>mFailed := True\<rparr>;
          s = RemoveRequest response s
      in mCallback \<lparr>downloadedBlocks = mDownloadedBlocks s, missingBlocks = mMissingBlocks s,
                    error = err, projectBlobDownloaded = mProjectDownloaded s,
                    completed = True, success = False, cancelled = False\<rparr> s)"

definition ReportProgress :: "int \<Rightarrow> Session \<Rightarrow> Session" where
  "ReportProgress time s =
     (if mCancelled s then s
      else
        let projectDownloaded = mProjectDownloaded s;
            blocksDownloaded = mDownloadedBlocks s;
            is_completed = (blocksDownloaded = mMissingBlocks s \<and> projectDownloaded);
            s = (if is_completed then MarkProjectInDB True time s else s)
        in mCallback \<lparr>downloadedBlocks = blocksDownloaded, missingBlocks = mMissingBlocks s,
                      error = [], projectBlobDownloaded = projectDownloaded,
                      completed = is_completed, success = is_completed,
                      cancelled = False\<rparr> s)"

text \<open>
  The length prefix of the project blob: the first eight bytes, least significant first
  (\<^verbatim>\<open>memcpy\<close>, with the bytes swapped on a big-endian host).
\<close>

fun le_value :: "byte list \<Rightarrow> nat" where
  "le_value [] = 0"
| "le_value (b # bs) = unat b + 256 * le_value bs"

definition read_dictSize :: "byte list \<Rightarrow> 64 word" where
  "read_dictSize data = of_nat (le_value (take 8 data))"

text \<open>
  \<^verbatim>\<open>OnProjectBlobDownloaded\<close>. The second length test is the source's comparison of
  \<^verbatim>\<open>data.size()\<close> with \<^verbatim>\<open>sizeof(uint64_t) + dictSize\<close> in 64-bit unsigned arithmetic. The
  two \<^verbatim>\<open>Bind\<close> calls read \<^verbatim>\<open>dictSize\<close> bytes after the prefix and
  \<^verbatim>\<open>data.size() - 8 - dictSize\<close> bytes after those; a read past the end of the buffer is
  undefined in the source and stops at the end of the list here. A transaction that is
  not committed leaves the store as it was.
\<close>

definition OnProjectBlobDownloaded :: "nat \<Rightarrow> Reply \<Rightarrow> Session \<Rightarrow> Session" where
  "OnProjectBlobDownloaded response rp s =
     (let data = readAll rp in
      if length data < 8 then OnFailure response ''Failed to download the cloud project'' s
      else
        let dictSize = read_dictSize data in
        if (of_nat (length data) :: 64 word) < 8 + dictSize
        then OnFailure response ''Failed to download the cloud project'' s
        else if \<not> stmt1_ok rp then OnFailure response ''Failed to update the cloud project'' s
        else if \<not> run1_ok rp then OnFailure response ''Failed to update the cloud project'' s
        else if \<not> stmt2_ok rp then OnFailure response ''Failed to update the cloud project'' s
        else if \<not> run2_ok rp then OnFailure response ''Failed to update the cloud project'' s
        else if \<not> commit_ok rp then OnFailure response ''Failed to update the cloud project'' s
        else
          let dict = take (unat dictSize) (drop 8 data);
              doc = take (unat ((of_nat (length data) :: 64 word) - 8 - dictSize))
                      (drop (8 + unat dictSize) data);
              s = s\<lparr>store := (store s)\<lparr>project := Some (dict, doc), autosave := False\<rparr>\<rparr>;
              s = s\<lparr>mProjectDownloaded := True\<rparr>
          in ReportProgress (now rp) s)"

text \<open>\<^verbatim>\<open>OnBlockDownloaded\<close>; \<open>decompressed rp\<close> is what \<^verbatim>\<open>DecompressBlock\<close> returns.\<close>

definition OnBlockDownloaded :: "string \<Rightarrow> nat \<Rightarrow> Reply \<Rightarrow> Session \<Rightarrow> Session" where
  "OnBlockDownloaded blockHash response rp s =
     (case decompressed rp of
        None \<Rightarrow> OnFailure response ''Failed to decompress the cloud project block'' s
      | Some blockData \<Rightarrow>
          if \<not> run1_ok rp
          then OnFailure response ''Failed to update the cloud project block hashes'' s
          else if \<not> stmt2_ok rp
          then OnFailure response ''Failed to update the cloud project block'' s
          else if \<not> run2_ok rp
          then OnFailure response ''Failed to update the cloud project block'' s
          else if \<not> commit_ok rp
          then OnFailure response ''Failed to update the cloud project'' s
          else
            let db = store s;
                s = s\<lparr>store := db\<lparr>
                      block_hashes :=
                        AList.update (PId (mProjectInfo s), BlockId blockData) blockHash
                          (block_hashes db),
                      sampleblocks :=
                        AList.update (BlockId blockData) blockData (sampleblocks db)\<rparr>\<rparr>;
                s = s\<lparr>mDownloadedBlocks := mDownloadedBlocks s + 1\<rparr>
            in ReportProgress (now rp) s)"

definition onSuccess :: "SuccessHandler \<Rightarrow> nat \<Rightarrow> Reply \<Rightarrow> Session \<Rightarrow> Session" where
  "onSuccess h response rp s =
     (case h of
        ProjectBlobHandler \<Rightarrow> OnProjectBlobDownloaded response rp s
      | BlockHandler hash \<Rightarrow> OnBlockDownloaded hash response rp s)"

subsection \<open>Downloads and retries\<close>

text \<open>
  \<^verbatim>\<open>DownloadBlob\<close> starts one GET, keeps the response in \<^verbatim>\<open>mResponses\<close> and installs the
  finished callback. The new response is identified by its position among all fetches.
\<close>

definition DownloadBlob :: "nat \<Rightarrow> string \<Rightarrow> SuccessHandler \<Rightarrow> int \<Rightarrow> Session \<Rightarrow> Session" where
  "DownloadBlob i u h n s =
     (let response = \<lparr>rid = length (fetches s), req = i, rurl = u, handler = h, retries = n\<rparr>
      in s\<lparr>fetches := fetches s @ [response],
           mResponses := mResponses s @ [rid response],
           pending := pending s @ [response]\<rparr>)"

definition bytes_to_string :: "byte list \<Rightarrow> string" where
  "bytes_to_string bs = map (\<lambda>b. char_of (unat b)) bs"

text \<open>The finished callback that \<^verbatim>\<open>DownloadBlob\<close> installs on response \<open>r\<close>.\<close>

definition RequestFinishedCallback :: "Response \<Rightarrow> Reply \<Rightarrow> Session \<Rightarrow> Session" where
  "RequestFinishedCallback r rp s =
     (if getError rp = OperationCancelled then RemoveRequest (rid r) s
      else if getError rp = HTTPError \<and> (getHTTPCode rp < 500 \<or> retries r \<le> 0)
      then OnFailure (rid r)
             (''Failed to download the cloud project: '' @ bytes_to_string (readAll rp)) s
      else if getError rp \<noteq> NoError
      then (if retries r \<le> 0
            then OnFailure (rid r)
                   (''Failed to download the cloud project: '' @ getErrorString rp) s
            else DownloadBlob (req r) (rurl r) (handler r) (retries r - 1) s)
      else RemoveRequest (rid r) (onSuccess (handler r) (rid r) rp s))"

subsection \<open>The scheduler thread and cancellation\<close>

definition WantsNextRequest :: "Session \<Rightarrow> bool" where
  "WantsNextRequest s = (\<not> mCancelled s \<and> \<not> mFailed s)"

definition MAX_CONCURRENT_REQUESTS :: int where
  "MAX_CONCURRENT_REQUESTS = 6"

text \<open>
  One turn of the loop of \<^verbatim>\<open>RequestsThread\<close>: the loop condition, the wait on the condition
  variable, the two exits, and the dispatch with three retries. A thread woken while its
  wait predicate is false goes on waiting, which leaves the session as it is.
\<close>

definition RequestsThread_turn :: "Session \<Rightarrow> Session" where
  "RequestsThread_turn s =
     (if \<not> WantsNextRequest s then s\<lparr>mRequestsThread := Exited\<rparr>
      else if mRequestsInProgress s \<ge> MAX_CONCURRENT_REQUESTS \<and>
              \<not> (mRequestsInProgress s < MAX_CONCURRENT_REQUESTS \<or> \<not> WantsNextRequest s)
      then s
      else if \<not> WantsNextRequest s then s\<lparr>mRequestsThread := Exited\<rparr>
      else if mNextRequestIndex s \<ge> length (mRequests s) then s\<lparr>mRequestsThread := Exited\<rparr>
      else
        let i = mNextRequestIndex s;
            request = mRequests s ! i;
            s = s\<lparr>mNextRequestIndex := i + 1\<rparr>;
            s = s\<lparr>mRequestsInProgress := mRequestsInProgress s + 1\<rparr>
        in DownloadBlob i (fst request) (snd request) 3 s)"

definition DoCancel :: "Session \<Rightarrow> Session" where
  "DoCancel s =
     (let s = s\<lparr>mCancelled := True\<rparr>;
          s = s\<lparr>notified := notified s + 1\<rparr>
      in fold (\<lambda>response s. s\<lparr>aborted := aborted s @ [response]\<rparr>) (mResponses s) s)"

definition Cancel :: "Session \<Rightarrow> Session" where
  "Cancel s =
     (let s = DoCancel s
      in mCallback \<lparr>downloadedBlocks = mDownloadedBlocks s, missingBlocks = mMissingBlocks s,
                    error = [], projectBlobDownloaded = mProjectDownloaded s,
                    completed = True, success = False, cancelled = True\<rparr> s)"

subsection \<open>Executions\<close>

text \<open>
  An event is a turn of the scheduler thread (possible while the thread runs), the
  finished callback of a response that is still pending, or a call of \<^verbatim>\<open>Cancel()\<close>.
  \<open>run\<close> is \<open>None\<close> when an event of the list cannot happen in the state it meets.
  Events do not overlap: a turn, a callback and a call of \<^verbatim>\<open>Cancel()\<close> each run to their
  end before the next event starts; the executions in which they overlap are those of
  the machine further down. The transport may answer a response in any way, also
  after \<^verbatim>\<open>abort()\<close>. The pause of 50 ms between two turns and the destructor are left out.
\<close>

definition step :: "Session \<Rightarrow> Event \<Rightarrow> Session option" where
  "step s e =
     (case e of
        RequestsThreadTurn \<Rightarrow>
          if mRequestsThread s = Running then Some (RequestsThread_turn s) else None
      | RequestFinished i rp \<Rightarrow>
          (case find (\<lambda>r. rid r = i) (pending s) of
             None \<Rightarrow> None
           | Some r \<Rightarrow>
               Some (RequestFinishedCallback r rp
                       (s\<lparr>pending := filter (\<lambda>x. rid x \<noteq> i) (pending s)\<rparr>)))
      | CancelCalled \<Rightarrow> Some (Cancel s))"

fun run :: "Session \<Rightarrow> Event list \<Rightarrow> Session option" where
  "run s [] = Some s"
| "run s (e # es) = (case step s e of None \<Rightarrow> None | Some s' \<Rightarrow> run s' es)"

subsection \<open>Quantities of a session\<close>

text \<open>
  The handlers of the responses in flight and of the requests that are not yet
  dispatched, counted by kind. \<open>blocks_open\<close> counts the blocks that are committed or may
  still be, \<open>blob_open\<close> does the same for the project blob. \<open>attempts i\<close> counts the
  fetches made for the request at position \<open>i\<close>.
\<close>

definition block_count :: "SuccessHandler list \<Rightarrow> nat" where
  "block_count hs = length (filter (\<lambda>h. h \<noteq> ProjectBlobHandler) hs)"

definition blob_count :: "SuccessHandler list \<Rightarrow> nat" where
  "blob_count hs = length (filter (\<lambda>h. h = ProjectBlobHandler) hs)"

definition in_flight :: "Session \<Rightarrow> SuccessHandler list" where
  "in_flight s = map handler (pending s)"

definition queued :: "Session \<Rightarrow> SuccessHandler list" where
  "queued s = map snd (drop (mNextRequestIndex s) (mRequests s))"

definition blocks_open :: "Session \<Rightarrow> nat" where
  "blocks_open s = mDownloadedBlocks s + block_count (in_flight s) + block_count (queued s)"

definition blob_open :: "Session \<Rightarrow> nat" where
  "blob_open s =
     (if mProjectDownloaded s then 1 else 0) + blob_count (in_flight s) + blob_count (queued s)"

definition attempts :: "nat \<Rightarrow> Session \<Rightarrow> nat" where
  "attempts i s = length (filter (\<lambda>r. req r = i) (fetches s))"

definition error_reports :: "Session \<Rightarrow> RemoteProjectSnapshotState list" where
  "error_reports s = filter (\<lambda>r. error r \<noteq> []) (reports s)"

text \<open>
  \<open>commits_block s e\<close> says that event \<open>e\<close> is the finished callback of a block download
  in flight in \<open>s\<close> that arrives without error, is decompressed and passes every
  database step of \<^verbatim>\<open>OnBlockDownloaded\<close>; \<open>committed_blocks\<close> counts these events along an
  execution.
\<close>

definition commits_block :: "Session \<Rightarrow> Event \<Rightarrow> bool" where
  "commits_block s e =
     (case e of
        RequestFinished i rp \<Rightarrow>
          (case find (\<lambda>r. rid r = i) (pending s) of
             None \<Rightarrow> False
           | Some r \<Rightarrow>
               handler r \<noteq> ProjectBlobHandler \<and> getError rp = NoError \<and>
               decompressed rp \<noteq> None \<and> run1_ok rp \<and> stmt2_ok rp \<and> run2_ok rp \<and>
               commit_ok rp)
      | _ \<Rightarrow> False)"

fun committed_blocks :: "Session \<Rightarrow> Event list \<Rightarrow> nat" where
  "committed_blocks s [] = 0"
| "committed_blocks s (e # es) =
     (case step s e of
        None \<Rightarrow> 0
      | Some s' \<Rightarrow> (if commits_block s e then 1 else 0) + committed_blocks s' es)"

text \<open>
  The three kinds of report the code builds: those of \<^verbatim>\<open>Cancel\<close>, those of
  \<^verbatim>\<open>OnFailure\<close>, and those of \<^verbatim>\<open>ReportProgress\<close> and the short circuit. A list of reports
  is quiet after a cancellation when every report behind a cancelled one is cancelled or
  carries an error.
\<close>

definition report_shape :: "RemoteProjectSnapshotState \<Rightarrow> bool" where
  "report_shape r \<longleftrightarrow>
     (cancelled r \<and> completed r \<and> \<not> success r \<and> error r = []) \<or>
     (\<not> cancelled r \<and> completed r \<and> \<not> success r \<and> error r \<noteq> []) \<or>
     (\<not> cancelled r \<and> completed r = success r \<and> error r = [])"

fun quiet_after_cancel :: "RemoteProjectSnapshotState list \<Rightarrow> bool" where
  "quiet_after_cancel [] = True"
| "quiet_after_cancel (r # rs) =
     ((cancelled r \<longrightarrow> (\<forall>x\<in>set rs. cancelled x \<or> error x \<noteq> [])) \<and> quiet_after_cancel rs)"

text \<open>
  The second half of the short-circuit test of the constructor: the project record
  exists, names this snapshot and is synced.
\<close>

definition known_condition :: "LocalStore \<Rightarrow> ProjectInfo \<Rightarrow> SnapshotInfo \<Rightarrow> bool" where
  "known_condition db projectInfo snapshotInfo =
     (case map_of (project_data db) (PId projectInfo) of
        None \<Rightarrow> False
      | Some d \<Rightarrow> SnapshotId d = SId snapshotInfo \<and> SyncStatus d = SyncStatusSynced)"

subsection \<open>Invariants of executions\<close>

text \<open>
  What every state of every execution of events satisfies. \<open>inv_count\<close>: the blocks still open
  are within the block requests, which are within \<^verbatim>\<open>mMissingBlocks\<close>; at most one blob is
  open; after a failure a block or the blob is lost for good. \<open>inv_flight\<close>: at most 6
  responses are in flight and, until a failure, the counter covers them.
  \<open>inv_success\<close>: at most one report of success, after which nothing is left to do.
  \<open>inv_errors\<close>: the reports of errors and the responses in flight are at most 6 together
  once the session has failed. \<open>inv_cancel\<close>: reports are quiet after a cancellation.
  \<open>inv_attempts\<close>: the fetches of a request and the retries left to its response add up
  to 4. \<open>inv_tracked\<close>: every response in flight is in \<^verbatim>\<open>mResponses\<close>.
\<close>

definition inv_count :: "Session \<Rightarrow> bool" where
  "inv_count s \<longleftrightarrow>
     blocks_open s \<le> block_count (map snd (mRequests s)) \<and>
     block_count (map snd (mRequests s)) \<le> mMissingBlocks s \<and>
     blob_open s \<le> 1 \<and>
     (mFailed s \<longrightarrow> blocks_open s < mMissingBlocks s \<or> blob_open s = 0)"

definition inv_flight :: "Session \<Rightarrow> bool" where
  "inv_flight s \<longleftrightarrow>
     length (pending s) \<le> 6 \<and> mRequestsInProgress s \<le> 6 \<and>
     (\<not> mFailed s \<longrightarrow> int (length (pending s)) \<le> mRequestsInProgress s)"

definition inv_success :: "Session \<Rightarrow> bool" where
  "inv_success s \<longleftrightarrow>
     filter success (reports s) = [] \<or>
     (length (filter success (reports s)) = 1 \<and> pending s = [] \<and>
      length (mRequests s) \<le> mNextRequestIndex s \<and>
      mDownloadedBlocks s = mMissingBlocks s)"

definition inv_errors :: "Session \<Rightarrow> bool" where
  "inv_errors s \<longleftrightarrow>
     error_reports s = [] \<or>
     (mFailed s \<and> length (error_reports s) + length (pending s) \<le> 6)"

definition inv_cancel :: "Session \<Rightarrow> bool" where
  "inv_cancel s \<longleftrightarrow>
     quiet_after_cancel (reports s) \<and> ((\<exists>r\<in>set (reports s). cancelled r) \<longrightarrow> mCancelled s)"

definition inv_attempts :: "Session \<Rightarrow> bool" where
  "inv_attempts s \<longleftrightarrow>
     (\<forall>i. attempts i s \<le> 4) \<and>
     (\<forall>i\<ge>mNextRequestIndex s. attempts i s = 0) \<and>
     (\<forall>r\<in>set (pending s). req r < mNextRequestIndex s \<and> 0 \<le> retries r \<and>
        int (attempts (req r) s) + retries r = 4) \<and>
     distinct (map req (pending s))"

definition inv_tracked :: "Session \<Rightarrow> bool" where
  "inv_tracked s \<longleftrightarrow> rid ` set (pending s) \<subseteq> set (mResponses s)"

definition session_inv :: "Session \<Rightarrow> bool" where
  "session_inv s \<longleftrightarrow>
     inv_count s \<and> inv_flight s \<and> inv_success s \<and> inv_errors s \<and> inv_cancel s \<and>
     inv_attempts s \<and> inv_tracked s"

subsection \<open>Example sessions\<close>

text \<open>
  A project whose local store holds the block with hash AA and a record that says snapshot
  s1 is synced; snapshots over a list of block hashes; replies of the transport; and
  some executions.
\<close>

definition example_project :: ProjectInfo where
  "example_project = \<lparr>PId = ''p''\<rparr>"

definition example_block :: DecodedBlock where
  "example_block = \<lparr>BlockId = 1, Format = 0, BlockMin = 0, BlockMax = 0, BlockRMS = 0,
     Summary256 = [], Summary64k = [], Data = []\<rparr>"

definition example_store :: LocalStore where
  "example_store =
     \<lparr>block_hashes = [((''p'', 1), ''AA'')], sampleblocks = [(1, example_block)],
      project = None, autosave = False,
      project_data = [(''p'', \<lparr>ProjectId = ''p'', SnapshotId = ''s1'',
         SyncStatus = SyncStatusSynced, LastRead = 0, LocalPath = ''path''\<rparr>)]\<rparr>"

definition block_named :: "string \<Rightarrow> SnapshotBlockInfo" where
  "block_named h = \<lparr>Hash = h, Url = ''u/'' @ h\<rparr>"

definition example_snapshot :: "string list \<Rightarrow> SnapshotInfo" where
  "example_snapshot hs = \<lparr>SId = ''s1'', FileUrl = ''f'', Blocks = map block_named hs\<rparr>"

definition example_session :: "string list \<Rightarrow> Session" where
  "example_session hs =
     construct True True 0 example_store example_project (example_snapshot hs) ''path''"

definition example_reply :: "NetworkError \<Rightarrow> int \<Rightarrow> byte list \<Rightarrow> Reply" where
  "example_reply e code payload =
     \<lparr>getError = e, getHTTPCode = code, readAll = payload, getErrorString = ''timeout'',
      decompressed = Some example_block, stmt1_ok = True, run1_ok = True, stmt2_ok = True,
      run2_ok = True, commit_ok = True, now = 1\<rparr>"

definition zero_prefix :: "byte list" where
  "zero_prefix = replicate 8 0"

definition seven_turns :: "Event list" where
  "seven_turns = replicate 7 RequestsThreadTurn"

definition three_server_errors :: "Event list" where
  "three_server_errors =
     [RequestsThreadTurn,
      RequestFinished 0 (example_reply HTTPError 503 []),
      RequestFinished 1 (example_reply HTTPError 503 []),
      RequestFinished 2 (example_reply HTTPError 503 [])]"

subsection \<open>Interleaved executions\<close>

text \<open>
  The functions above run a member function from its first line to its last. In the
  program the scheduler thread, the finished callbacks (on threads of the transport) and
  \<^verbatim>\<open>Cancel()\<close> (on the caller's thread) run at the same time, and other threads act
  between two accesses of one thread to the shared members. Here every thread is the list
  of the accesses it still has to make, and one move makes the first access of one
  thread. An access is an atomic load, store or increment, a section under one mutex, a
  call of the network manager, or a call of the callback; values that a thread has
  loaded travel with its later accesses.
\<close>

datatype ReportKind = FailureReport string | CancelReport

datatype Action =
    SchedLoop
  | SchedLocked
  | DoGet nat string SuccessHandler int
  | Track Response
  | Install Response
  | SetFailed
  | EraseResponse nat
  | ReleaseSlot
  | LoadBlocks ReportKind
  | LoadProject ReportKind nat
  | Emit ReportKind nat bool
  | CommitBlob "byte list" "byte list"
  | CommitBlock string DecodedBlock
  | StoreProjectDownloaded
  | IncDownloaded
  | TestCancelled int
  | ReadProject int
  | ReadBlocks int bool
  | MarkSynced int
  | EmitProgress nat bool bool
  | SetCancelled
  | NotifyCV
  | AbortAll

text \<open>
  The accesses of each member function, in the order of the source. What a finished
  callback does is decided by the response and its payload alone, so its plan is a
  function of the two. \<^verbatim>\<open>OnFailure\<close>: store to \<^verbatim>\<open>mFailed\<close>, the two locked sections of
  \<^verbatim>\<open>RemoveRequest\<close>, the two loads that fill the report (the braces of the initialiser
  are evaluated from left to right), the callback.
\<close>

definition RemoveRequest_plan :: "nat \<Rightarrow> Action list" where
  "RemoveRequest_plan response = [EraseResponse response, ReleaseSlot]"

definition OnFailure_plan :: "nat \<Rightarrow> string \<Rightarrow> Action list" where
  "OnFailure_plan response err =
     SetFailed # RemoveRequest_plan response @ [LoadBlocks (FailureReport err)]"

definition ReportProgress_plan :: "int \<Rightarrow> Action list" where
  "ReportProgress_plan time = [TestCancelled time]"

definition OnProjectBlobDownloaded_plan :: "nat \<Rightarrow> Reply \<Rightarrow> Action list" where
  "OnProjectBlobDownloaded_plan response rp =
     (let data = readAll rp in
      if length data < 8 then OnFailure_plan response ''Failed to download the cloud project''
      else
        let dictSize = read_dictSize data in
        if (of_nat (length data) :: 64 word) < 8 + dictSize
        then OnFailure_plan response ''Failed to download the cloud project''
        else if \<not> stmt1_ok rp then OnFailure_plan response ''Failed to update the cloud project''
        else if \<not> run1_ok rp then OnFailure_plan response ''Failed to update the cloud project''
        else if \<not> stmt2_ok rp then OnFailure_plan response ''Failed to update the cloud project''
        else if \<not> run2_ok rp then OnFailure_plan response ''Failed to update the cloud project''
        else if \<not> commit_ok rp then OnFailure_plan response ''Failed to update the cloud project''
        else
          CommitBlob (take (unat dictSize) (drop 8 data))
            (take (unat ((of_nat (length data) :: 64 word) - 8 - dictSize))
               (drop (8 + unat dictSize) data)) #
          StoreProjectDownloaded # ReportProgress_plan (now rp))"

definition OnBlockDownloaded_plan :: "string \<Rightarrow> nat \<Rightarrow> Reply \<Rightarrow> Action list" where
  "OnBlockDownloaded_plan blockHash response rp =
     (case decompressed rp of
        None \<Rightarrow> OnFailure_plan response ''Failed to decompress the cloud project block''
      | Some blockData \<Rightarrow>
          if \<not> run1_ok rp
          then OnFailure_plan response ''Failed to update the cloud project block hashes''
          else if \<not> stmt2_ok rp
          then OnFailure_plan response ''Failed to update the cloud project block''
          else if \<not> run2_ok rp
          then OnFailure_plan response ''Failed to update the cloud project block''
          else if \<not> commit_ok rp
          then OnFailure_plan response ''Failed to update the cloud project''
          else CommitBlock blockHash blockData # IncDownloaded # ReportProgress_plan (now rp))"

definition onSuccess_plan :: "SuccessHandler \<Rightarrow> nat \<Rightarrow> Reply \<Rightarrow> Action list" where
  "onSuccess_plan h response rp =
     (case h of
        ProjectBlobHandler \<Rightarrow> OnProjectBlobDownloaded_plan response rp
      | BlockHandler hash \<Rightarrow> OnBlockDownloaded_plan hash response rp)"

definition RequestFinishedCallback_plan :: "Response \<Rightarrow> Reply \<Rightarrow> Action list" where
  "RequestFinishedCallback_plan r rp =
     (if getError rp = OperationCancelled then RemoveRequest_plan (rid r)
      else if getError rp = HTTPError \<and> (getHTTPCode rp < 500 \<or> retries r \<le> 0)
      then OnFailure_plan (rid r)
             (''Failed to download the cloud project: '' @ bytes_to_string (readAll rp))
      else if getError rp \<noteq> NoError
      then (if retries r \<le> 0
            then OnFailure_plan (rid r)
                   (''Failed to download the cloud project: '' @ getErrorString rp)
            else [DoGet (req r) (rurl r) (handler r) (retries r - 1)])
      else onSuccess_plan (handler r) (rid r) rp @ RemoveRequest_plan (rid r))"

definition Cancel_plan :: "Action list" where
  "Cancel_plan = [SetCancelled, NotifyCV, AbortAll, LoadBlocks CancelReport]"

text \<open>
  One access: the session after it and the accesses it puts in front of the rest of its
  thread. \<open>SchedLoop\<close> is the test of the \<^verbatim>\<open>while\<close> loop of \<^verbatim>\<open>RequestsThread\<close> (the two
  flags that \<^verbatim>\<open>WantsNextRequest\<close> loads only ever become true, so its two loads are one
  access),
  \<open>SchedLocked\<close> its section under \<^verbatim>\<open>mRequestsMutex\<close>, which stays where it is while it has
  to wait. \<open>DoGet\<close>, \<open>Track\<close> and \<open>Install\<close> are \<^verbatim>\<open>DownloadBlob\<close>: the GET,
  the \<^verbatim>\<open>push_back\<close> to \<^verbatim>\<open>mResponses\<close>, which the source makes without the mutex and which
  is one access here, and the installation of the finished callback, which cannot run
  before. \<open>TestCancelled\<close> to \<open>EmitProgress\<close> are \<^verbatim>\<open>ReportProgress\<close>.
\<close>

fun exec :: "Action \<Rightarrow> Session \<Rightarrow> Session \<times> Action list" where
  "exec SchedLoop s =
     (if WantsNextRequest s then (s, [SchedLocked]) else (s\<lparr>mRequestsThread := Exited\<rparr>, []))"
| "exec SchedLocked s =
     (if mRequestsInProgress s \<ge> MAX_CONCURRENT_REQUESTS \<and>
         \<not> (mRequestsInProgress s < MAX_CONCURRENT_REQUESTS \<or> \<not> WantsNextRequest s)
      then (s, [SchedLocked])
      else if \<not> WantsNextRequest s then (s\<lparr>mRequestsThread := Exited\<rparr>, [])
      else if mNextRequestIndex s \<ge> length (mRequests s)
      then (s\<lparr>mRequestsThread := Exited\<rparr>, [])
      else
        let i = mNextRequestIndex s;
            request = mRequests s ! i;
            s = s\<lparr>mNextRequestIndex := i + 1\<rparr>;
            s = s\<lparr>mRequestsInProgress := mRequestsInProgress s + 1\<rparr>
        in (s, [DoGet i (fst request) (snd request) 3, SchedLoop]))"
| "exec (DoGet i u h n) s =
     (let response = \<lparr>rid = length (fetches s), req = i, rurl = u, handler = h, retries = n\<rparr>
      in (s\<lparr>fetches := fetches s @ [response]\<rparr>, [Track response]))"
| "exec (Track response) s =
     (s\<lparr>mResponses := mResponses s @ [rid response]\<rparr>, [Install response])"
| "exec (Install response) s = (s\<lparr>pending := pending s @ [response]\<rparr>, [])"
| "exec SetFailed s = (s\<lparr>mFailed := True\<rparr>, [])"
| "exec (EraseResponse response) s =
     (s\<lparr>mResponses := filter (\<lambda>r. r \<noteq> response) (mResponses s)\<rparr>, [])"
| "exec ReleaseSlot s =
     (s\<lparr>mRequestsInProgress := mRequestsInProgress s - 1, notified := notified s + 1\<rparr>, [])"
| "exec (LoadBlocks k) s = (s, [LoadProject k (mDownloadedBlocks s)])"
| "exec (LoadProject k blocksDownloaded) s =
     (s, [Emit k blocksDownloaded (mProjectDownloaded s)])"
| "exec (Emit k blocksDownloaded projectDownloaded) s =
     (mCallback
        (case k of
           FailureReport err \<Rightarrow>
             \<lparr>downloadedBlocks = blocksDownloaded, missingBlocks = mMissingBlocks s,
              error = err, projectBlobDownloaded = projectDownloaded,
              completed = True, success = False, cancelled = False\<rparr>
         | CancelReport \<Rightarrow>
             \<lparr>downloadedBlocks = blocksDownloaded, missingBlocks = mMissingBlocks s,
              error = [], projectBlobDownloaded = projectDownloaded,
              completed = True, success = False, cancelled = True\<rparr>) s, [])"
| "exec (CommitBlob dict doc) s =
     (s\<lparr>store := (store s)\<lparr>project := Some (dict, doc), autosave := False\<rparr>\<rparr>, [])"
| "exec (CommitBlock blockHash blockData) s =
     (let db = store s
      in (s\<lparr>store := db\<lparr>
            block_hashes :=
              AList.update (PId (mProjectInfo s), BlockId blockData) blockHash (block_hashes db),
            sampleblocks :=
              AList.update (BlockId blockData) blockData (sampleblocks db)\<rparr>\<rparr>, []))"
| "exec StoreProjectDownloaded s = (s\<lparr>mProjectDownloaded := True\<rparr>, [])"
| "exec IncDownloaded s = (s\<lparr>mDownloadedBlocks := mDownloadedBlocks s + 1\<rparr>, [])"
| "exec (TestCancelled time) s = (if mCancelled s then (s, []) else (s, [ReadProject time]))"
| "exec (ReadProject time) s = (s, [ReadBlocks time (mProjectDownloaded s)])"
| "exec (ReadBlocks time projectDownloaded) s =
     (let blocksDownloaded = mDownloadedBlocks s;
          is_completed = (blocksDownloaded = mMissingBlocks s \<and> projectDownloaded)
      in (s, (if is_completed then [MarkSynced time] else []) @
             [EmitProgress blocksDownloaded projectDownloaded is_completed]))"
| "exec (MarkSynced time) s = (MarkProjectInDB True time s, [])"
| "exec (EmitProgress blocksDownloaded projectDownloaded is_completed) s =
     (mCallback \<lparr>downloadedBlocks = blocksDownloaded, missingBlocks = mMissingBlocks s,
                 error = [], projectBlobDownloaded = projectDownloaded,
                 completed = is_completed, success = is_completed, cancelled = False\<rparr> s, [])"
| "exec SetCancelled s = (s\<lparr>mCancelled := True\<rparr>, [])"
| "exec NotifyCV s = (s\<lparr>notified := notified s + 1\<rparr>, [])"
| "exec AbortAll s =
     (fold (\<lambda>response s. s\<lparr>aborted := aborted s @ [response]\<rparr>) (mResponses s) s, [])"

text \<open>
  The machine: the session that the threads share, and the threads. A move advances one
  thread by one access, or the transport finishes a response whose callback is installed
  and starts the callback on a new thread, or somebody calls \<^verbatim>\<open>Cancel()\<close>. A thread that
  holds the database mutex does not keep the other threads from moving here, which adds
  executions and takes none away.
\<close>

record Machine =
  shared :: Session
  threads :: "Action list list"

datatype Move = Advance nat | Finish nat Reply | CallCancel

definition start :: "Session \<Rightarrow> Machine" where
  "start s = \<lparr>shared = s, threads = (if mRequestsThread s = Running then [[SchedLoop]] else [])\<rparr>"

definition move :: "Machine \<Rightarrow> Move \<Rightarrow> Machine option" where
  "move m e =
     (case e of
        Advance k \<Rightarrow>
          if k < length (threads m)
          then (case threads m ! k of
                  [] \<Rightarrow> None
                | a # rest \<Rightarrow>
                    (case exec a (shared m) of
                       (s, new) \<Rightarrow> Some \<lparr>shared = s, threads = (threads m)[k := new @ rest]\<rparr>))
          else None
      | Finish i rp \<Rightarrow>
          (case find (\<lambda>r. rid r = i) (pending (shared m)) of
             None \<Rightarrow> None
           | Some r \<Rightarrow>
               Some \<lparr>shared = (shared m)\<lparr>pending := filter (\<lambda>x. rid x \<noteq> i) (pending (shared m))\<rparr>,
                     threads = threads m @ [RequestFinishedCallback_plan r rp]\<rparr>)
      | CallCancel \<Rightarrow> Some (m\<lparr>threads := threads m @ [Cancel_plan]\<rparr>))"

fun moves :: "Machine \<Rightarrow> Move list \<Rightarrow> Machine option" where
  "moves m [] = Some m"
| "moves m (e # es) = (case move m e of None \<Rightarrow> None | Some m' \<Rightarrow> moves m' es)"

text \<open>A thread that runs alone; the number bounds the accesses it makes.\<close>

fun alone :: "nat \<Rightarrow> Action list \<Rightarrow> Session \<Rightarrow> Session" where
  "alone 0 as s = s"
| "alone (Suc n) [] s = s"
| "alone (Suc n) (a # as) s = (case exec a s of (s', new) \<Rightarrow> alone n (new @ as) s')"

subsection \<open>Quantities of a machine\<close>

text \<open>
  The accesses that the threads still have to make. A download is still open for a
  block while an access that issues, records or counts it is to come: \<open>block_token\<close>
  and \<open>blob_token\<close> mark these accesses, and \<open>blocks_left\<close> and \<open>blob_left\<close> add them
  to the open downloads of the session. A machine is failing from the moment a callback
  that calls \<^verbatim>\<open>OnFailure\<close> starts.
\<close>

definition accesses :: "Machine \<Rightarrow> Action list" where
  "accesses m = concat (threads m)"

fun block_token :: "Action \<Rightarrow> nat" where
  "block_token (DoGet i u h n) = (if h = ProjectBlobHandler then 0 else 1)"
| "block_token (Track r) = (if handler r = ProjectBlobHandler then 0 else 1)"
| "block_token (Install r) = (if handler r = ProjectBlobHandler then 0 else 1)"
| "block_token IncDownloaded = 1"
| "block_token a = 0"

fun blob_token :: "Action \<Rightarrow> nat" where
  "blob_token (DoGet i u h n) = (if h = ProjectBlobHandler then 1 else 0)"
| "blob_token (Track r) = (if handler r = ProjectBlobHandler then 1 else 0)"
| "blob_token (Install r) = (if handler r = ProjectBlobHandler then 1 else 0)"
| "blob_token StoreProjectDownloaded = 1"
| "blob_token a = 0"

definition blocks_left :: "Machine \<Rightarrow> nat" where
  "blocks_left m = blocks_open (shared m) + sum_list (map block_token (accesses m))"

definition blob_left :: "Machine \<Rightarrow> nat" where
  "blob_left m = blob_open (shared m) + sum_list (map blob_token (accesses m))"

definition failing :: "Machine \<Rightarrow> bool" where
  "failing m \<longleftrightarrow> mFailed (shared m) \<or> SetFailed \<in> set (accesses m)"

text \<open>
  The accesses between the loads and the callback of a report: \<open>failure_due\<close> inside
  \<^verbatim>\<open>OnFailure\<close>, \<open>cancel_due\<close> inside \<^verbatim>\<open>Cancel\<close>, \<open>past_test\<close> inside \<^verbatim>\<open>ReportProgress\<close>
  behind the test of the cancellation flag.
\<close>

fun report_due :: "Action \<Rightarrow> ReportKind option" where
  "report_due (LoadBlocks k) = Some k"
| "report_due (LoadProject k n) = Some k"
| "report_due (Emit k n b) = Some k"
| "report_due a = None"

definition failure_due :: "Action \<Rightarrow> bool" where
  "failure_due a = (case report_due a of Some (FailureReport err) \<Rightarrow> True | _ \<Rightarrow> False)"

definition cancel_due :: "Action \<Rightarrow> bool" where
  "cancel_due a = (case report_due a of Some CancelReport \<Rightarrow> True | _ \<Rightarrow> False)"

fun past_test :: "Action \<Rightarrow> bool" where
  "past_test (ReadProject t) = True"
| "past_test (ReadBlocks t b) = True"
| "past_test (EmitProgress n b c) = True"
| "past_test a = False"

text \<open>The reports that \<^verbatim>\<open>ReportProgress\<close> builds: not cancelled, without an error.\<close>

definition progress_report :: "RemoteProjectSnapshotState \<Rightarrow> bool" where
  "progress_report r \<longleftrightarrow> \<not> cancelled r \<and> error r = []"

text \<open>
  What a thread carries is consistent with the session: a count it has loaded is not
  above the counter, a blob flag it has loaded as true is true, the message of a failure
  is not empty, and completed is what \<^verbatim>\<open>ReportProgress\<close> computed from its loads.
\<close>

fun kind_ok :: "ReportKind \<Rightarrow> bool" where
  "kind_ok (FailureReport err) = (err \<noteq> [])"
| "kind_ok CancelReport = True"

fun carried_ok :: "Session \<Rightarrow> Action \<Rightarrow> bool" where
  "carried_ok s (LoadBlocks k) = kind_ok k"
| "carried_ok s (LoadProject k n) = (kind_ok k \<and> n \<le> mDownloadedBlocks s)"
| "carried_ok s (Emit k n b) =
     (kind_ok k \<and> n \<le> mDownloadedBlocks s \<and> (b \<longrightarrow> mProjectDownloaded s))"
| "carried_ok s (ReadBlocks t b) = (b \<longrightarrow> mProjectDownloaded s)"
| "carried_ok s (EmitProgress n b c) =
     (n \<le> mDownloadedBlocks s \<and> (b \<longrightarrow> mProjectDownloaded s) \<and>
      c = (n = mMissingBlocks s \<and> b))"
| "carried_ok s a = True"

text \<open>
  The finished callbacks that call \<^verbatim>\<open>OnFailure\<close>, the moves that start one, and their
  number along an execution.
\<close>

definition calls_OnFailure :: "Response \<Rightarrow> Reply \<Rightarrow> bool" where
  "calls_OnFailure r rp \<longleftrightarrow> SetFailed \<in> set (RequestFinishedCallback_plan r rp)"

definition download_fails :: "Machine \<Rightarrow> Move \<Rightarrow> bool" where
  "download_fails m e =
     (case e of
        Finish i rp \<Rightarrow>
          (case find (\<lambda>r. rid r = i) (pending (shared m)) of
             None \<Rightarrow> False
           | Some r \<Rightarrow> calls_OnFailure r rp)
      | _ \<Rightarrow> False)"

fun failed_downloads :: "Machine \<Rightarrow> Move list \<Rightarrow> nat" where
  "failed_downloads m [] = 0"
| "failed_downloads m (e # es) =
     (case move m e of
        None \<Rightarrow> 0
      | Some m' \<Rightarrow> (if download_fails m e then 1 else 0) + failed_downloads m' es)"

text \<open>
  The responses in flight are the pending ones, whose finished callback is installed,
  and those that \<^verbatim>\<open>DownloadBlob\<close> has issued and is still working on (\<open>issued\<close>). Of the
  latter, \<open>unrecorded\<close> are not yet in \<^verbatim>\<open>mResponses\<close> and \<open>recorded\<close> are. \<open>erasing\<close> are
  the responses that a thread is about to erase.
\<close>

fun unrecorded :: "Action \<Rightarrow> nat list" where
  "unrecorded (Track r) = [rid r]"
| "unrecorded a = []"

fun recorded :: "Action \<Rightarrow> nat list" where
  "recorded (Install r) = [rid r]"
| "recorded a = []"

definition issued :: "Action \<Rightarrow> nat list" where
  "issued a = unrecorded a @ recorded a"

fun erasing :: "Action \<Rightarrow> nat list" where
  "erasing (EraseResponse i) = [i]"
| "erasing a = []"

definition issued_responses :: "Machine \<Rightarrow> nat list" where
  "issued_responses m = concat (map issued (accesses m))"

subsection \<open>Invariants of interleaved executions\<close>

text \<open>
  What every state of every interleaved execution satisfies. \<open>inv_tokens\<close>: the blocks
  left are within \<^verbatim>\<open>mMissingBlocks\<close>, at most one blob is left, and once a failure has begun
  a block or the blob is lost for good. \<open>inv_carried\<close>: what the threads carry is
  consistent with the session. \<open>inv_done\<close>: when a report of success exists, nothing
  has failed and nothing is left to download. \<open>inv_reports\<close>: every report has one of
  the three shapes, the value of \<^verbatim>\<open>mMissingBlocks\<close>, a count of blocks that is not above
  the counter and, unless it is the report of success of the constructor, a blob flag
  that is true only if the member is. \<open>inv_errs\<close>: a report with an error is emitted,
  or about to be, only in a failing machine.
\<close>

definition inv_tokens :: "Machine \<Rightarrow> bool" where
  "inv_tokens m \<longleftrightarrow>
     blocks_left m \<le> mMissingBlocks (shared m) \<and> blob_left m \<le> 1 \<and>
     (failing m \<longrightarrow> blocks_left m < mMissingBlocks (shared m) \<or> blob_left m = 0)"

definition inv_carried :: "Machine \<Rightarrow> bool" where
  "inv_carried m \<longleftrightarrow> list_all (carried_ok (shared m)) (accesses m)"

definition inv_done :: "Machine \<Rightarrow> bool" where
  "inv_done m \<longleftrightarrow>
     ((\<exists>r\<in>set (reports (shared m)). success r) \<longrightarrow>
        \<not> failing m \<and> blocks_left m \<le> mDownloadedBlocks (shared m) \<and>
        blob_left m \<le> (if mProjectDownloaded (shared m) then 1 else 0))"

definition report_ok :: "Session \<Rightarrow> RemoteProjectSnapshotState \<Rightarrow> bool" where
  "report_ok s r \<longleftrightarrow>
     report_shape r \<and> missingBlocks r = mMissingBlocks s \<and>
     downloadedBlocks r \<le> mDownloadedBlocks s \<and>
     (projectBlobDownloaded r \<and> \<not> success r \<longrightarrow> mProjectDownloaded s) \<and>
     (success r \<longrightarrow> downloadedBlocks r = missingBlocks r \<and> projectBlobDownloaded r)"

definition inv_reports :: "Machine \<Rightarrow> bool" where
  "inv_reports m \<longleftrightarrow> list_all (report_ok (shared m)) (reports (shared m))"

definition inv_errs :: "Machine \<Rightarrow> bool" where
  "inv_errs m \<longleftrightarrow>
     ((\<exists>a\<in>set (accesses m). failure_due a) \<or> (\<exists>r\<in>set (reports (shared m)). error r \<noteq> [])
        \<longrightarrow> failing m)"

text \<open>
  \<open>inv_responses\<close>: the responses in flight are distinct and among the fetches, a
  response that a thread is about to erase is not in flight, and every response in
  flight is in \<^verbatim>\<open>mResponses\<close> from the \<^verbatim>\<open>push_back\<close> of \<^verbatim>\<open>DownloadBlob\<close> on.
\<close>

definition inv_responses :: "Machine \<Rightarrow> bool" where
  "inv_responses m \<longleftrightarrow>
     distinct (map rid (pending (shared m)) @ issued_responses m) \<and>
     (\<forall>i\<in>set (map rid (pending (shared m)) @ issued_responses m). i < length (fetches (shared m))) \<and>
     (\<forall>i\<in>set (concat (map erasing (accesses m))).
        i < length (fetches (shared m)) \<and>
        i \<notin> set (map rid (pending (shared m)) @ issued_responses m)) \<and>
     set (map rid (pending (shared m)) @ concat (map recorded (accesses m)))
       \<subseteq> set (mResponses (shared m))"

definition machine_inv :: "Machine \<Rightarrow> bool" where
  "machine_inv m \<longleftrightarrow>
     inv_tokens m \<and> inv_carried m \<and> inv_done m \<and> inv_reports m \<and> inv_errs m \<and>
     inv_responses m"

subsection \<open>Example interleavings\<close>

text \<open>
  Interleavings of the session for the snapshot with the one missing block B1. Thread 0
  is the scheduler thread, which needs five accesses for one dispatch; the other threads
  are numbered as the callbacks and the calls of \<^verbatim>\<open>Cancel()\<close> start. In
  \<open>cancel_misses_response\<close> a call of \<^verbatim>\<open>Cancel()\<close> runs between the GET of the scheduler
  thread and its \<^verbatim>\<open>push_back\<close>; \<open>cancel_twice\<close> goes on with a second call. In
  \<open>cancel_reaches_abort\<close> a call has stored the flag and notified. In
  \<open>cancel_loads_early\<close> a call loads the counter of blocks while the callback of the
  block is between its commit and its increment. In \<open>two_failures\<close> both downloads fail with a client error. In \<open>success_after_cancel\<close>
  the blob is committed, the callback of the block commits, increments the counter and
  tests the cancellation flag, then a call of \<^verbatim>\<open>Cancel()\<close> runs, then the callback goes
  on. In \<open>cancels_and_failures\<close> a call of \<^verbatim>\<open>Cancel()\<close> is followed by the two failing
  callbacks, which take turns access by access, and by a second call. In \<open>two_successes\<close> the callback of the blob stores its
  flag, the callback of the block increments the counter, and then each of the two runs
  \<^verbatim>\<open>ReportProgress\<close>.
\<close>

definition dispatch_two :: "Move list" where
  "dispatch_two = replicate 10 (Advance 0)"







definition cancels_and_failures :: "Move list" where
  "cancels_and_failures =
     dispatch_two @ [CallCancel] @ replicate 6 (Advance 1) @
     [Finish 0 (example_reply HTTPError 404 []), Finish 1 (example_reply HTTPError 404 [])] @
     concat (replicate 6 [Advance 2, Advance 3]) @
     [CallCancel] @ replicate 6 (Advance 4)"

definition two_successes :: "Move list" where
  "two_successes =
     dispatch_two @
     [Finish 0 (example_reply NoError 200 zero_prefix)] @ replicate 2 (Advance 1) @
     [Finish 1 (example_reply NoError 200 [])] @ replicate 2 (Advance 2) @
     replicate 5 (Advance 1) @ replicate 5 (Advance 2)"

section \<open>Properties of the steps\<close>

text \<open>
  Counting handlers, and what removing a finished response does to the counts.
\<close>

lemma count_simps [simp]:
  "block_count [] = 0" "blob_count [] = 0"
  "block_count (h # hs) = (if h = ProjectBlobHandler then 0 else 1) + block_count hs"
  "blob_count (h # hs) = (if h = ProjectBlobHandler then 1 else 0) + blob_count hs"
  "block_count (hs @ hs') = block_count hs + block_count hs'"
  "blob_count (hs @ hs') = blob_count hs + blob_count hs'"
  by (simp_all add: block_count_def blob_count_def)

lemma count_length: "block_count hs + blob_count hs = length hs"
  by (induction hs) auto

lemma count_filter_le:
  "block_count (map handler (filter P xs)) \<le> block_count (map handler xs)"
  "blob_count (map handler (filter P xs)) \<le> blob_count (map handler xs)"
  by (induction xs) auto

lemma filter_drop_length:
  "r \<in> set xs \<Longrightarrow> \<not> P r \<Longrightarrow> Suc (length (filter P xs)) \<le> length xs"
proof (induction xs)
  case Nil
  then show ?case by simp
next
  case (Cons x xs)
  show ?case
  proof (cases "r = x")
    case True
    with Cons.prems length_filter_le[of P xs] show ?thesis by simp
  next
    case False
    with Cons show ?thesis by auto
  qed
qed

lemma filter_drop_block:
  "r \<in> set xs \<Longrightarrow> \<not> P r \<Longrightarrow> handler r \<noteq> ProjectBlobHandler \<Longrightarrow>
     Suc (block_count (map handler (filter P xs))) \<le> block_count (map handler xs)"
proof (induction xs)
  case Nil
  then show ?case by simp
next
  case (Cons x xs)
  show ?case
  proof (cases "r = x")
    case True
    with Cons.prems count_filter_le(1)[of P xs] show ?thesis by simp
  next
    case False
    with Cons show ?thesis by auto
  qed
qed

lemma filter_drop_blob:
  "r \<in> set xs \<Longrightarrow> \<not> P r \<Longrightarrow> handler r = ProjectBlobHandler \<Longrightarrow>
     Suc (blob_count (map handler (filter P xs))) \<le> blob_count (map handler xs)"
proof (induction xs)
  case Nil
  then show ?case by simp
next
  case (Cons x xs)
  show ?case
  proof (cases "r = x")
    case True
    with Cons.prems count_filter_le(2)[of P xs] show ?thesis by simp
  next
    case False
    with Cons show ?thesis by auto
  qed
qed

lemma find_SomeD: "find P xs = Some r \<Longrightarrow> r \<in> set xs \<and> P r"
  by (induction xs) (auto split: if_splits)

text \<open>
  The outcomes of a finished callback and of a step, as case rules: a handler either
  fails with a non-empty message or commits and reports progress; a callback is a
  cancellation, a failure of the network, a rejection by the handler, a retry or a
  commit; a step is one of these, a turn of the scheduler or a cancellation.
\<close>

lemma OnProjectBlobDownloaded_cases:
  assumes "\<And>err. err \<noteq> [] \<Longrightarrow> Q (OnFailure response err s)"
    and "\<And>st. Q (ReportProgress (now rp) (s\<lparr>store := st, mProjectDownloaded := True\<rparr>))"
  shows "Q (OnProjectBlobDownloaded response rp s)"
  unfolding OnProjectBlobDownloaded_def Let_def
  by (simp add: assms)

lemma OnBlockDownloaded_cases:
  assumes "\<And>err. err \<noteq> [] \<Longrightarrow> Q (OnFailure response err s)"
    and "\<And>st. Q (ReportProgress (now rp)
                  (s\<lparr>store := st, mDownloadedBlocks := mDownloadedBlocks s + 1\<rparr>))"
  shows "Q (OnBlockDownloaded h response rp s)"
  unfolding OnBlockDownloaded_def Let_def
  using assms(2) by (simp add: assms(1) split: option.split)

lemma RequestFinishedCallback_cases:
  obtains
    (Cancelled) "RequestFinishedCallback r rp s = RemoveRequest (rid r) s"
  | (Failed) err where "err \<noteq> []"
      "RequestFinishedCallback r rp s = OnFailure (rid r) err s"
  | (Rejected) err where "err \<noteq> []" "getError rp = NoError"
      "RequestFinishedCallback r rp s = RemoveRequest (rid r) (OnFailure (rid r) err s)"
  | (Retry) "0 < retries r" "getError rp \<noteq> NoError"
      "RequestFinishedCallback r rp s =
         DownloadBlob (req r) (rurl r) (handler r) (retries r - 1) s"
  | (Blob) st where "handler r = ProjectBlobHandler" "getError rp = NoError"
      "RequestFinishedCallback r rp s =
         RemoveRequest (rid r)
           (ReportProgress (now rp) (s\<lparr>store := st, mProjectDownloaded := True\<rparr>))"
  | (Block) st where "handler r \<noteq> ProjectBlobHandler" "getError rp = NoError"
      "RequestFinishedCallback r rp s =
         RemoveRequest (rid r)
           (ReportProgress (now rp)
              (s\<lparr>store := st, mDownloadedBlocks := mDownloadedBlocks s + 1\<rparr>))"
proof (cases "getError rp = NoError")
  case False
  show ?thesis
  proof (cases "getError rp = OperationCancelled")
    case True
    then show ?thesis using Cancelled by (simp add: RequestFinishedCallback_def)
  next
    case nc: False
    show ?thesis
    proof (cases "retries r \<le> 0")
      case True
      with nc False have
        "RequestFinishedCallback r rp s =
           OnFailure (rid r)
             (''Failed to download the cloud project: '' @ bytes_to_string (readAll rp)) s \<or>
         RequestFinishedCallback r rp s =
           OnFailure (rid r) (''Failed to download the cloud project: '' @ getErrorString rp) s"
        by (simp add: RequestFinishedCallback_def)
      then show ?thesis using Failed by fastforce
    next
      case pos: False
      show ?thesis
      proof (cases "getError rp = HTTPError \<and> getHTTPCode rp < 500")
        case True
        with nc pos have
          "RequestFinishedCallback r rp s =
             OnFailure (rid r)
               (''Failed to download the cloud project: '' @ bytes_to_string (readAll rp)) s"
          by (simp add: RequestFinishedCallback_def)
        then show ?thesis using Failed by fastforce
      next
        case False
        with nc pos \<open>getError rp \<noteq> NoError\<close> have
          "RequestFinishedCallback r rp s =
             DownloadBlob (req r) (rurl r) (handler r) (retries r - 1) s"
          by (auto simp add: RequestFinishedCallback_def)
        then show ?thesis using Retry pos \<open>getError rp \<noteq> NoError\<close> by simp
      qed
    qed
  qed
next
  case ok: True
  show ?thesis
  proof (cases "handler r")
    case ProjectBlobHandler
    have "(\<exists>err. err \<noteq> [] \<and> OnProjectBlobDownloaded (rid r) rp s = OnFailure (rid r) err s) \<or>
          (\<exists>st. OnProjectBlobDownloaded (rid r) rp s =
             ReportProgress (now rp) (s\<lparr>store := st, mProjectDownloaded := True\<rparr>))"
      by (rule OnProjectBlobDownloaded_cases) blast+
    then show ?thesis
      using ok ProjectBlobHandler Rejected Blob
      by (auto simp add: RequestFinishedCallback_def onSuccess_def)
  next
    case (BlockHandler h)
    have "(\<exists>err. err \<noteq> [] \<and> OnBlockDownloaded h (rid r) rp s = OnFailure (rid r) err s) \<or>
          (\<exists>st. OnBlockDownloaded h (rid r) rp s =
             ReportProgress (now rp)
               (s\<lparr>store := st, mDownloadedBlocks := mDownloadedBlocks s + 1\<rparr>))"
      by (rule OnBlockDownloaded_cases) blast+
    then show ?thesis
      using ok BlockHandler Rejected Block
      by (auto simp add: RequestFinishedCallback_def onSuccess_def)
  qed
qed

lemma step_cases [consumes 1, case_names Exit Wait Dispatch CancelCall Cancelled Failed Rejected Retry Blob Block]:
  assumes "step s e = Some s'"
  obtains
    (Exit) "s' = s\<lparr>mRequestsThread := Exited\<rparr>"
  | (Wait) "s' = s"
  | (Dispatch) "\<not> mCancelled s" "\<not> mFailed s" "mRequestsInProgress s < 6"
      "mNextRequestIndex s < length (mRequests s)"
      "s' = DownloadBlob (mNextRequestIndex s) (fst (mRequests s ! mNextRequestIndex s))
              (snd (mRequests s ! mNextRequestIndex s)) 3
              (s\<lparr>mNextRequestIndex := mNextRequestIndex s + 1,
                 mRequestsInProgress := mRequestsInProgress s + 1\<rparr>)"
  | (CancelCall) "s' = Cancel s"
  | (Cancelled) r where "r \<in> set (pending s)"
      "s' = RemoveRequest (rid r) (s\<lparr>pending := filter (\<lambda>x. rid x \<noteq> rid r) (pending s)\<rparr>)"
  | (Failed) r err where "r \<in> set (pending s)" "err \<noteq> []"
      "s' = OnFailure (rid r) err (s\<lparr>pending := filter (\<lambda>x. rid x \<noteq> rid r) (pending s)\<rparr>)"
  | (Rejected) r err where "r \<in> set (pending s)" "err \<noteq> []"
      "s' = RemoveRequest (rid r)
              (OnFailure (rid r) err (s\<lparr>pending := filter (\<lambda>x. rid x \<noteq> rid r) (pending s)\<rparr>))"
  | (Retry) r where "r \<in> set (pending s)" "0 < retries r"
      "s' = DownloadBlob (req r) (rurl r) (handler r) (retries r - 1)
              (s\<lparr>pending := filter (\<lambda>x. rid x \<noteq> rid r) (pending s)\<rparr>)"
  | (Blob) r t st where "r \<in> set (pending s)" "handler r = ProjectBlobHandler"
      "s' = RemoveRequest (rid r)
              (ReportProgress t
                 (s\<lparr>pending := filter (\<lambda>x. rid x \<noteq> rid r) (pending s), store := st,
                    mProjectDownloaded := True\<rparr>))"
  | (Block) r t st where "r \<in> set (pending s)" "handler r \<noteq> ProjectBlobHandler"
      "s' = RemoveRequest (rid r)
              (ReportProgress t
                 (s\<lparr>pending := filter (\<lambda>x. rid x \<noteq> rid r) (pending s), store := st,
                    mDownloadedBlocks := mDownloadedBlocks s + 1\<rparr>))"
proof (cases e)
  case RequestsThreadTurn
  with assms have s': "s' = RequestsThread_turn s"
    by (simp add: step_def split: if_splits)
  show ?thesis
  proof (cases "WantsNextRequest s \<and> mRequestsInProgress s < 6 \<and>
                mNextRequestIndex s < length (mRequests s)")
    case True
    then show ?thesis using s' Dispatch
      by (simp add: RequestsThread_turn_def WantsNextRequest_def MAX_CONCURRENT_REQUESTS_def Let_def)
  next
    case False
    then have "s' = s\<lparr>mRequestsThread := Exited\<rparr> \<or> s' = s"
      using s'
      by (auto simp add: RequestsThread_turn_def WantsNextRequest_def MAX_CONCURRENT_REQUESTS_def Let_def)
    then show ?thesis using Exit Wait by blast
  qed
next
  case CancelCalled
  with assms show ?thesis using CancelCall by (simp add: step_def)
next
  case (RequestFinished i rp)
  with assms obtain r where f: "find (\<lambda>r. rid r = i) (pending s) = Some r"
    and s': "s' = RequestFinishedCallback r rp (s\<lparr>pending := filter (\<lambda>x. rid x \<noteq> i) (pending s)\<rparr>)"
    by (auto simp: step_def split: option.splits)
  from f have r: "r \<in> set (pending s)" and i: "i = rid r"
    using find_SomeD[OF f] by auto
  define s0 where "s0 = s\<lparr>pending := filter (\<lambda>x. rid x \<noteq> rid r) (pending s)\<rparr>"
  have s'': "s' = RequestFinishedCallback r rp s0" using s' i by (simp add: s0_def)
  show ?thesis
  proof (rule RequestFinishedCallback_cases[of r rp s0], goal_cases Cancelled Failed Rejected Retry Blob Block)
    case Cancelled
    then show ?thesis using r s'' that(5) by (simp add: s0_def)
  next
    case (Failed err)
    then show ?thesis using r s'' that(6) by (simp add: s0_def)
  next
    case (Rejected err)
    then show ?thesis using r s'' that(7) by (simp add: s0_def)
  next
    case Retry
    then show ?thesis using r s'' that(8) by (simp add: s0_def)
  next
    case (Blob st)
    then show ?thesis using r s'' that(9)[of r "now rp" st] by (simp add: s0_def)
  next
    case (Block st)
    then show ?thesis using r s'' that(10)[of r "now rp" st] by (simp add: s0_def)
  qed
qed

text \<open>
  The fields that \<^verbatim>\<open>Cancel\<close> and \<^verbatim>\<open>ReportProgress\<close> change.
\<close>

lemma queued_dispatch:
  "mNextRequestIndex s < length (mRequests s) \<Longrightarrow>
   queued s = snd (mRequests s ! mNextRequestIndex s) #
     map snd (drop (Suc (mNextRequestIndex s)) (mRequests s))"
  by (simp add: queued_def Cons_nth_drop_Suc [symmetric])

lemmas opens = blocks_open_def blob_open_def in_flight_def queued_def

lemma Cancel_fields:
  "Cancel s = s\<lparr>mCancelled := True, notified := notified s + 1,
      aborted := aborted s @ mResponses s,
      reports := reports s @ [\<lparr>downloadedBlocks = mDownloadedBlocks s,
        missingBlocks = mMissingBlocks s, error = [],
        projectBlobDownloaded = mProjectDownloaded s,
        completed = True, success = False, cancelled = True\<rparr>]\<rparr>"
proof -
  have f: "fold (\<lambda>response s. s\<lparr>aborted := aborted s @ [response]\<rparr>) xs t =
           t\<lparr>aborted := aborted t @ xs\<rparr>" for xs and t :: Session
    by (induction xs arbitrary: t) simp_all
  show ?thesis by (simp add: Cancel_def DoCancel_def mCallback_def Let_def f)
qed

lemma ReportProgress_proj [simp]:
  "mMissingBlocks (ReportProgress t s) = mMissingBlocks s"
  "mDownloadedBlocks (ReportProgress t s) = mDownloadedBlocks s"
  "mProjectDownloaded (ReportProgress t s) = mProjectDownloaded s"
  "mCancelled (ReportProgress t s) = mCancelled s"
  "mFailed (ReportProgress t s) = mFailed s"
  "mRequests (ReportProgress t s) = mRequests s"
  "mNextRequestIndex (ReportProgress t s) = mNextRequestIndex s"
  "mRequestsInProgress (ReportProgress t s) = mRequestsInProgress s"
  "mResponses (ReportProgress t s) = mResponses s"
  "mRequestsThread (ReportProgress t s) = mRequestsThread s"
  "fetches (ReportProgress t s) = fetches s"
  "pending (ReportProgress t s) = pending s"
  "aborted (ReportProgress t s) = aborted s"
  "notified (ReportProgress t s) = notified s"
  by (simp_all add: ReportProgress_def mCallback_def MarkProjectInDB_def Let_def)

lemma ReportProgress_reports:
  "reports (ReportProgress t s) =
     (if mCancelled s then reports s
      else reports s @
        [\<lparr>downloadedBlocks = mDownloadedBlocks s, missingBlocks = mMissingBlocks s,
          error = [], projectBlobDownloaded = mProjectDownloaded s,
          completed = (mDownloadedBlocks s = mMissingBlocks s \<and> mProjectDownloaded s),
          success = (mDownloadedBlocks s = mMissingBlocks s \<and> mProjectDownloaded s),
          cancelled = False\<rparr>])"
  by (simp add: ReportProgress_def mCallback_def MarkProjectInDB_def Let_def)

lemmas prims0 = RemoveRequest_def OnFailure_def DownloadBlob_def mCallback_def Let_def

text \<open>
  Every invariant holds after a step when it held before.
\<close>

lemma pending_removed:
  assumes "r \<in> set (pending s)"
  shows "block_count (map handler (filter (\<lambda>x. rid x \<noteq> rid r) (pending s))) +
           (if handler r = ProjectBlobHandler then 0 else 1)
         \<le> block_count (map handler (pending s))"
    and "blob_count (map handler (filter (\<lambda>x. rid x \<noteq> rid r) (pending s))) +
           (if handler r = ProjectBlobHandler then 1 else 0)
         \<le> blob_count (map handler (pending s))"
    and "Suc (length (filter (\<lambda>x. rid x \<noteq> rid r) (pending s))) \<le> length (pending s)"
  using assms count_filter_le[of "\<lambda>x. rid x \<noteq> rid r" "pending s"]
    filter_drop_block[of r "pending s" "\<lambda>x. rid x \<noteq> rid r"]
    filter_drop_blob[of r "pending s" "\<lambda>x. rid x \<noteq> rid r"]
    filter_drop_length[of r "pending s" "\<lambda>x. rid x \<noteq> rid r"]
  by simp_all

lemma inv_count_step:
  assumes "step s e = Some s'" "inv_count s"
  shows "inv_count s'"
  using assms(1)
proof (cases rule: step_cases)
  case Exit
  with assms(2) show ?thesis by (simp add: inv_count_def opens)
next
  case Wait
  with assms(2) show ?thesis by simp
next
  case Dispatch
  have q: "queued s = snd (mRequests s ! mNextRequestIndex s) # queued s'"
    using queued_dispatch[of s] Dispatch by (simp add: queued_def prims0)
  have "blocks_open s' = blocks_open s" "blob_open s' = blob_open s"
    unfolding blocks_open_def blob_open_def q
    using Dispatch(5) by (simp_all add: in_flight_def prims0)
  moreover have "mRequests s' = mRequests s" "mMissingBlocks s' = mMissingBlocks s"
    "mFailed s' = mFailed s"
    using Dispatch(5) by (simp_all add: prims0)
  ultimately show ?thesis using assms(2) by (auto simp add: inv_count_def)
next
  case CancelCall
  with assms(2) show ?thesis by (simp add: inv_count_def opens Cancel_fields)
next
  case (Cancelled r)
  have "blocks_open s' \<le> blocks_open s" "blob_open s' \<le> blob_open s"
    using Cancelled(2) pending_removed[OF Cancelled(1)]
    by (simp_all add: opens prims0 split: if_splits)
  moreover have "mRequests s' = mRequests s" "mMissingBlocks s' = mMissingBlocks s"
    "mFailed s' = mFailed s"
    using Cancelled(2) by (simp_all add: prims0)
  ultimately show ?thesis using assms(2) by (auto simp add: inv_count_def)
next
  case (Failed r err)
  have "blocks_open s' + (if handler r = ProjectBlobHandler then 0 else 1) \<le> blocks_open s"
    "blob_open s' + (if handler r = ProjectBlobHandler then 1 else 0) \<le> blob_open s"
    using Failed(3) pending_removed[OF Failed(1)]
    by (simp_all add: opens prims0 split: if_splits)
  moreover have "mRequests s' = mRequests s" "mMissingBlocks s' = mMissingBlocks s"
    using Failed(3) by (simp_all add: prims0)
  ultimately show ?thesis using assms(2) by (auto simp add: inv_count_def split: if_splits)
next
  case (Rejected r err)
  have "blocks_open s' + (if handler r = ProjectBlobHandler then 0 else 1) \<le> blocks_open s"
    "blob_open s' + (if handler r = ProjectBlobHandler then 1 else 0) \<le> blob_open s"
    using Rejected(3) pending_removed[OF Rejected(1)]
    by (simp_all add: opens prims0 split: if_splits)
  moreover have "mRequests s' = mRequests s" "mMissingBlocks s' = mMissingBlocks s"
    using Rejected(3) by (simp_all add: prims0)
  ultimately show ?thesis using assms(2) by (auto simp add: inv_count_def split: if_splits)
next
  case (Retry r)
  have "blocks_open s' \<le> blocks_open s" "blob_open s' \<le> blob_open s"
    using Retry(3) pending_removed[OF Retry(1)]
    by (simp_all add: opens prims0 split: if_splits)
  moreover have "mRequests s' = mRequests s" "mMissingBlocks s' = mMissingBlocks s"
    "mFailed s' = mFailed s"
    using Retry(3) by (simp_all add: prims0)
  ultimately show ?thesis using assms(2) by (auto simp add: inv_count_def)
next
  case (Blob r t st)
  have "blocks_open s' \<le> blocks_open s" "blob_open s' \<le> blob_open s"
    using Blob(2,3) pending_removed[OF Blob(1)] assms(2)
    by (simp_all add: opens RemoveRequest_def inv_count_def split: if_splits)
  moreover have "mRequests s' = mRequests s" "mMissingBlocks s' = mMissingBlocks s"
    "mFailed s' = mFailed s"
    using Blob(3) by (simp_all add: RemoveRequest_def)
  ultimately show ?thesis using assms(2) by (auto simp add: inv_count_def)
next
  case (Block r t st)
  have "blocks_open s' \<le> blocks_open s" "blob_open s' \<le> blob_open s"
    using Block(2,3) pending_removed[OF Block(1)]
    by (simp_all add: opens RemoveRequest_def split: if_splits)
  moreover have "mRequests s' = mRequests s" "mMissingBlocks s' = mMissingBlocks s"
    "mFailed s' = mFailed s"
    using Block(3) by (simp_all add: RemoveRequest_def)
  ultimately show ?thesis using assms(2) by (auto simp add: inv_count_def)
qed

lemma inv_flight_step:
  assumes "step s e = Some s'" "inv_flight s"
  shows "inv_flight s'"
  using assms(1)
proof (cases rule: step_cases)
  case Exit
  with assms(2) show ?thesis by (simp add: inv_flight_def)
next
  case Wait
  with assms(2) show ?thesis by simp
next
  case Dispatch
  with assms(2) show ?thesis by (auto simp add: inv_flight_def prims0)
next
  case CancelCall
  with assms(2) show ?thesis by (simp add: inv_flight_def Cancel_fields)
next
  case (Cancelled r)
  with assms(2) pending_removed(3)[OF Cancelled(1)] show ?thesis
    by (auto simp add: inv_flight_def prims0)
next
  case (Failed r err)
  with assms(2) pending_removed(3)[OF Failed(1)] show ?thesis
    by (auto simp add: inv_flight_def prims0)
next
  case (Rejected r err)
  with assms(2) pending_removed(3)[OF Rejected(1)] show ?thesis
    by (auto simp add: inv_flight_def prims0)
next
  case (Retry r)
  with assms(2) pending_removed(3)[OF Retry(1)] show ?thesis
    by (auto simp add: inv_flight_def prims0)
next
  case (Blob r t st)
  with assms(2) pending_removed(3)[OF Blob(1)] show ?thesis
    by (auto simp add: inv_flight_def RemoveRequest_def)
next
  case (Block r t st)
  with assms(2) pending_removed(3)[OF Block(1)] show ?thesis
    by (auto simp add: inv_flight_def RemoveRequest_def)
qed

lemma counts_zero: "block_count hs = 0 \<Longrightarrow> blob_count hs = 0 \<Longrightarrow> hs = []"
  using count_length[of hs] by simp

lemma queued_empty: "queued s = [] \<longleftrightarrow> length (mRequests s) \<le> mNextRequestIndex s"
  by (simp add: queued_def)

lemma last_commit:
  assumes "inv_count s" "r \<in> set (pending s)"
    and "if handler r = ProjectBlobHandler
         then mDownloadedBlocks s = mMissingBlocks s
         else mDownloadedBlocks s + 1 = mMissingBlocks s \<and> mProjectDownloaded s"
  shows "filter (\<lambda>x. rid x \<noteq> rid r) (pending s) = []"
    and "length (mRequests s) \<le> mNextRequestIndex s"
proof -
  let ?P0 = "filter (\<lambda>x. rid x \<noteq> rid r) (pending s)"
  have b: "blocks_open s \<le> mMissingBlocks s" "blob_open s \<le> 1"
    using assms(1) by (auto simp: inv_count_def)
  have z: "block_count (map handler ?P0) = 0 \<and> blob_count (map handler ?P0) = 0 \<and>
        block_count (queued s) = 0 \<and> blob_count (queued s) = 0"
    using b assms(3) pending_removed(1,2)[OF assms(2)]
    by (cases "handler r = ProjectBlobHandler")
      (auto simp: blocks_open_def blob_open_def in_flight_def split: if_splits)
  from z have "map handler ?P0 = []" by (intro counts_zero) auto
  then show "?P0 = []" by simp
  from z have "queued s = []" by (intro counts_zero) auto
  then show "length (mRequests s) \<le> mNextRequestIndex s" by (simp add: queued_empty)
qed

lemma inv_success_step:
  assumes "step s e = Some s'" "inv_success s" "inv_count s"
  shows "inv_success s'"
  using assms(1)
proof (cases rule: step_cases)
  case Exit
  with assms(2) show ?thesis by (simp add: inv_success_def)
next
  case Wait
  with assms(2) show ?thesis by simp
next
  case Dispatch
  with assms(2) show ?thesis by (auto simp add: inv_success_def prims0)
next
  case CancelCall
  with assms(2) show ?thesis by (auto simp add: inv_success_def Cancel_fields)
next
  case (Cancelled r)
  with assms(2) show ?thesis by (auto simp add: inv_success_def prims0)
next
  case (Failed r err)
  with assms(2) show ?thesis by (auto simp add: inv_success_def prims0)
next
  case (Rejected r err)
  with assms(2) show ?thesis by (auto simp add: inv_success_def prims0)
next
  case (Retry r)
  with assms(2) show ?thesis by (auto simp add: inv_success_def prims0)
next
  case (Blob r t st)
  from Blob(1) assms(2) have none: "filter success (reports s) = []"
    by (auto simp: inv_success_def)
  show ?thesis
  proof (cases "mDownloadedBlocks s = mMissingBlocks s \<and> \<not> mCancelled s")
    case True
    with last_commit[OF assms(3) Blob(1)] Blob(2) none Blob(3) show ?thesis
      by (simp add: inv_success_def RemoveRequest_def ReportProgress_reports)
  next
    case False
    with none Blob(3) show ?thesis
      by (auto simp add: inv_success_def RemoveRequest_def ReportProgress_reports)
  qed
next
  case (Block r t st)
  from Block(1) assms(2) have none: "filter success (reports s) = []"
    by (auto simp: inv_success_def)
  show ?thesis
  proof (cases "mDownloadedBlocks s + 1 = mMissingBlocks s \<and> mProjectDownloaded s \<and>
                \<not> mCancelled s")
    case True
    with last_commit[OF assms(3) Block(1)] Block(2) none Block(3) show ?thesis
      by (simp add: inv_success_def RemoveRequest_def ReportProgress_reports)
  next
    case False
    with none Block(3) show ?thesis
      by (auto simp add: inv_success_def RemoveRequest_def ReportProgress_reports)
  qed
qed

lemma inv_errors_step:
  assumes "step s e = Some s'" "inv_errors s" "inv_flight s"
  shows "inv_errors s'"
  using assms(1)
proof (cases rule: step_cases)
  case Exit
  with assms(2) show ?thesis by (simp add: inv_errors_def error_reports_def)
next
  case Wait
  with assms(2) show ?thesis by simp
next
  case Dispatch
  with assms(2) show ?thesis by (auto simp add: inv_errors_def error_reports_def prims0)
next
  case CancelCall
  with assms(2) show ?thesis by (auto simp add: inv_errors_def error_reports_def Cancel_fields)
next
  case (Cancelled r)
  with assms(2) pending_removed(3)[OF Cancelled(1)] show ?thesis
    by (auto simp add: inv_errors_def error_reports_def prims0)
next
  case (Failed r err)
  with assms(2,3) pending_removed(3)[OF Failed(1)] show ?thesis
    by (auto simp add: inv_errors_def inv_flight_def error_reports_def prims0)
next
  case (Rejected r err)
  with assms(2,3) pending_removed(3)[OF Rejected(1)] show ?thesis
    by (auto simp add: inv_errors_def inv_flight_def error_reports_def prims0)
next
  case (Retry r)
  with assms(2) pending_removed(3)[OF Retry(1)] show ?thesis
    by (auto simp add: inv_errors_def error_reports_def prims0)
next
  case (Blob r t st)
  with assms(2) pending_removed(3)[OF Blob(1)] show ?thesis
    by (auto simp add: inv_errors_def error_reports_def RemoveRequest_def ReportProgress_reports)
next
  case (Block r t st)
  with assms(2) pending_removed(3)[OF Block(1)] show ?thesis
    by (auto simp add: inv_errors_def error_reports_def RemoveRequest_def ReportProgress_reports)
qed

lemma quiet_after_cancel_snoc:
  "quiet_after_cancel (rs @ [r]) \<longleftrightarrow>
     quiet_after_cancel rs \<and> ((\<exists>x\<in>set rs. cancelled x) \<longrightarrow> cancelled r \<or> error r \<noteq> [])"
  by (induction rs) auto

lemma inv_cancel_step:
  assumes "step s e = Some s'" "inv_cancel s"
  shows "inv_cancel s'"
  using assms(1)
proof (cases rule: step_cases)
  case Exit
  with assms(2) show ?thesis by (simp add: inv_cancel_def)
next
  case Wait
  with assms(2) show ?thesis by simp
next
  case Dispatch
  with assms(2) show ?thesis by (simp add: inv_cancel_def prims0)
next
  case CancelCall
  with assms(2) show ?thesis
    by (simp add: inv_cancel_def Cancel_fields quiet_after_cancel_snoc)
next
  case (Cancelled r)
  with assms(2) show ?thesis by (simp add: inv_cancel_def prims0)
next
  case (Failed r err)
  with assms(2) show ?thesis
    by (simp add: inv_cancel_def prims0 quiet_after_cancel_snoc)
next
  case (Rejected r err)
  with assms(2) show ?thesis
    by (simp add: inv_cancel_def prims0 quiet_after_cancel_snoc)
next
  case (Retry r)
  with assms(2) show ?thesis by (simp add: inv_cancel_def prims0)
next
  case (Blob r t st)
  with assms(2) show ?thesis
    by (auto simp add: inv_cancel_def RemoveRequest_def ReportProgress_reports
          quiet_after_cancel_snoc)
next
  case (Block r t st)
  with assms(2) show ?thesis
    by (auto simp add: inv_cancel_def RemoveRequest_def ReportProgress_reports
          quiet_after_cancel_snoc)
qed

lemma inv_attempts_frame:
  assumes "inv_attempts s" "fetches s' = fetches s"
    "mNextRequestIndex s' = mNextRequestIndex s"
    "pending s' = filter P (pending s)"
  shows "inv_attempts s'"
  using assms by (auto simp add: inv_attempts_def attempts_def distinct_map_filter)

lemma inv_attempts_step:
  assumes "step s e = Some s'" "inv_attempts s"
  shows "inv_attempts s'"
  using assms(1)
proof (cases rule: step_cases)
  case Exit
  with assms(2) show ?thesis by (simp add: inv_attempts_def attempts_def)
next
  case Wait
  with assms(2) show ?thesis by simp
next
  case Dispatch
  with assms(2) show ?thesis
    by (auto simp add: inv_attempts_def attempts_def prims0)
next
  case CancelCall
  with assms(2) show ?thesis by (simp add: inv_attempts_def attempts_def Cancel_fields)
next
  case (Cancelled r)
  show ?thesis
    by (rule inv_attempts_frame[OF assms(2), where P = "\<lambda>x. rid x \<noteq> rid r"])
      (simp_all add: Cancelled(2) prims0)
next
  case (Failed r err)
  show ?thesis
    by (rule inv_attempts_frame[OF assms(2), where P = "\<lambda>x. rid x \<noteq> rid r"])
      (simp_all add: Failed(3) prims0)
next
  case (Rejected r err)
  show ?thesis
    by (rule inv_attempts_frame[OF assms(2), where P = "\<lambda>x. rid x \<noteq> rid r"])
      (simp_all add: Rejected(3) prims0)
next
  case (Retry r)
  let ?P0 = "filter (\<lambda>x. rid x \<noteq> rid r) (pending s)"
  have r: "req r < mNextRequestIndex s" "0 \<le> retries r"
    "int (attempts (req r) s) + retries r = 4"
    using assms(2) Retry(1) by (auto simp: inv_attempts_def)
  have other: "req x \<noteq> req r" if "x \<in> set ?P0" for x
  proof -
    from that have "x \<in> set (pending s)" "x \<noteq> r" by auto
    with Retry(1) assms(2) show ?thesis
      by (auto simp: inv_attempts_def distinct_map inj_on_def)
  qed
  have f: "fetches s' = fetches s @
      [\<lparr>rid = length (fetches s), req = req r, rurl = rurl r, handler = handler r,
        retries = retries r - 1\<rparr>]"
    and p: "pending s' = ?P0 @
      [\<lparr>rid = length (fetches s), req = req r, rurl = rurl r, handler = handler r,
        retries = retries r - 1\<rparr>]"
    and n: "mNextRequestIndex s' = mNextRequestIndex s"
    using Retry(3) by (simp_all add: prims0)
  have a: "attempts i s' = (if i = req r then Suc (attempts i s) else attempts i s)" for i
    by (simp add: attempts_def f)
  have "\<forall>i. attempts i s' \<le> 4"
    using assms(2) r Retry(2) by (auto simp: a inv_attempts_def)
  moreover have "\<forall>i\<ge>mNextRequestIndex s'. attempts i s' = 0"
    using assms(2) r by (auto simp: a n inv_attempts_def)
  moreover have "\<forall>x\<in>set (pending s'). req x < mNextRequestIndex s' \<and> 0 \<le> retries x \<and>
        int (attempts (req x) s') + retries x = 4"
    using assms(2) r Retry(2) other by (auto simp: a n p inv_attempts_def)
  moreover have "distinct (map req (pending s'))"
  proof -
    have "distinct (map req ?P0)"
      using assms(2) by (simp add: inv_attempts_def distinct_map_filter)
    moreover have "req r \<notin> req ` set ?P0"
    proof
      assume "req r \<in> req ` set ?P0"
      then obtain x where "x \<in> set ?P0" "req r = req x" by (rule imageE)
      with other[of x] show False by simp
    qed
    ultimately show ?thesis by (simp add: p)
  qed
  ultimately show ?thesis by (simp add: inv_attempts_def)
next
  case (Blob r t st)
  show ?thesis
    by (rule inv_attempts_frame[OF assms(2), where P = "\<lambda>x. rid x \<noteq> rid r"])
      (simp_all add: Blob(3) RemoveRequest_def)
next
  case (Block r t st)
  show ?thesis
    by (rule inv_attempts_frame[OF assms(2), where P = "\<lambda>x. rid x \<noteq> rid r"])
      (simp_all add: Block(3) RemoveRequest_def)
qed

lemma inv_tracked_step:
  assumes "step s e = Some s'" "inv_tracked s"
  shows "inv_tracked s'"
  using assms(1)
proof (cases rule: step_cases)
  case Exit
  with assms(2) show ?thesis by (simp add: inv_tracked_def)
next
  case Wait
  with assms(2) show ?thesis by simp
next
  case Dispatch
  with assms(2) show ?thesis by (auto simp add: inv_tracked_def prims0)
next
  case CancelCall
  with assms(2) show ?thesis by (simp add: inv_tracked_def Cancel_fields)
next
  case (Cancelled r)
  with assms(2) show ?thesis by (auto simp add: inv_tracked_def prims0)
next
  case (Failed r err)
  with assms(2) show ?thesis by (auto simp add: inv_tracked_def prims0)
next
  case (Rejected r err)
  with assms(2) show ?thesis by (auto simp add: inv_tracked_def prims0)
next
  case (Retry r)
  with assms(2) show ?thesis by (auto simp add: inv_tracked_def prims0)
next
  case (Blob r t st)
  with assms(2) show ?thesis by (auto simp add: inv_tracked_def RemoveRequest_def)
next
  case (Block r t st)
  with assms(2) show ?thesis by (auto simp add: inv_tracked_def RemoveRequest_def)
qed

lemma session_inv_step:
  assumes "step s e = Some s'" "session_inv s"
  shows "session_inv s'"
  using assms(2) inv_count_step[OF assms(1)] inv_flight_step[OF assms(1)]
    inv_success_step[OF assms(1)] inv_errors_step[OF assms(1)] inv_cancel_step[OF assms(1)]
    inv_attempts_step[OF assms(1)] inv_tracked_step[OF assms(1)]
  by (simp add: session_inv_def)

lemma run_invariant:
  assumes "\<And>s e s'. step s e = Some s' \<Longrightarrow> P s \<Longrightarrow> P s'"
  shows "run s evs = Some s' \<Longrightarrow> P s \<Longrightarrow> P s'"
proof (induction evs arbitrary: s)
  case Nil
  then show ?case by simp
next
  case (Cons e evs)
  then show ?case using assms by (auto split: option.splits)
qed

lemma session_inv_run: "run s evs = Some s' \<Longrightarrow> session_inv s \<Longrightarrow> session_inv s'"
  by (rule run_invariant[where P = session_inv]) (rule session_inv_step)

text \<open>
  The constructor: its three outcomes, the bound on the block requests, and the
  invariants of the session it builds.
\<close>

lemma MarkProjectInDB_proj [simp]:
  "mProjectInfo (MarkProjectInDB b t s) = mProjectInfo s"
  "mSnapshotInfo (MarkProjectInDB b t s) = mSnapshotInfo s"
  "mPath (MarkProjectInDB b t s) = mPath s"
  "mAttached (MarkProjectInDB b t s) = mAttached s"
  "mMissingBlocks (MarkProjectInDB b t s) = mMissingBlocks s"
  "mDownloadedBlocks (MarkProjectInDB b t s) = mDownloadedBlocks s"
  "mProjectDownloaded (MarkProjectInDB b t s) = mProjectDownloaded s"
  "mCancelled (MarkProjectInDB b t s) = mCancelled s"
  "mFailed (MarkProjectInDB b t s) = mFailed s"
  "mRequests (MarkProjectInDB b t s) = mRequests s"
  "mNextRequestIndex (MarkProjectInDB b t s) = mNextRequestIndex s"
  "mRequestsInProgress (MarkProjectInDB b t s) = mRequestsInProgress s"
  "mResponses (MarkProjectInDB b t s) = mResponses s"
  "mRequestsThread (MarkProjectInDB b t s) = mRequestsThread s"
  "reports (MarkProjectInDB b t s) = reports s"
  "fetches (MarkProjectInDB b t s) = fetches s"
  "pending (MarkProjectInDB b t s) = pending s"
  "aborted (MarkProjectInDB b t s) = aborted s"
  "notified (MarkProjectInDB b t s) = notified s"
  by (simp_all add: MarkProjectInDB_def Let_def)

lemma construct_cases [case_names NotAttached ShortCircuit Start]:
  fixes attach_ok statement_ok time db projectInfo snapshotInfo path
  defines "c \<equiv> construct attach_ok statement_ok time db projectInfo snapshotInfo path"
    and "K \<equiv> CalculateKnownBlocks statement_ok db projectInfo snapshotInfo"
    and "n \<equiv> new_session db projectInfo snapshotInfo path"
  obtains
    (NotAttached) "\<not> attach_ok" "c = n\<lparr>mAttached := False\<rparr>"
  | (ShortCircuit) "attach_ok" "card K = length (Blocks snapshotInfo)"
      "known_condition db projectInfo snapshotInfo"
      "c = n\<lparr>mAttached := True,
            reports := [\<lparr>downloadedBlocks = 0, missingBlocks = 0, error = [],
              projectBlobDownloaded = True, completed = True, success = True,
              cancelled = False\<rparr>]\<rparr>"
  | (Start) "attach_ok"
      "\<not> (card K = length (Blocks snapshotInfo) \<and> known_condition db projectInfo snapshotInfo)"
      "c = (MarkProjectInDB False time (n\<lparr>mAttached := True\<rparr>))
             \<lparr>mMissingBlocks := length (Blocks snapshotInfo) - card K,
              mRequests := (FileUrl snapshotInfo, ProjectBlobHandler) #
                           block_requests K (Blocks snapshotInfo),
              mRequestsThread := Running\<rparr>"
proof (cases attach_ok)
  case False
  then show ?thesis using NotAttached by (simp add: c_def n_def construct_def)
next
  case a: True
  show ?thesis
  proof (cases "card K = length (Blocks snapshotInfo) \<and>
                known_condition db projectInfo snapshotInfo")
    case True
    then have "c = n\<lparr>mAttached := True,
            reports := [\<lparr>downloadedBlocks = 0, missingBlocks = 0, error = [],
              projectBlobDownloaded = True, completed = True, success = True,
              cancelled = False\<rparr>]\<rparr>"
      using a unfolding c_def n_def K_def construct_def known_condition_def Let_def
      by (simp add: mCallback_def new_session_def)
    with True a ShortCircuit show ?thesis by blast
  next
    case False
    then have "c = (MarkProjectInDB False time (n\<lparr>mAttached := True\<rparr>))
             \<lparr>mMissingBlocks := length (Blocks snapshotInfo) - card K,
              mRequests := (FileUrl snapshotInfo, ProjectBlobHandler) #
                           block_requests K (Blocks snapshotInfo),
              mRequestsThread := Running\<rparr>"
      using a unfolding c_def n_def K_def construct_def known_condition_def Let_def
      by auto
    with False a Start show ?thesis by blast
  qed
qed

lemma CalculateKnownBlocks_remote:
  "CalculateKnownBlocks statement_ok db p snap \<subseteq>
     (\<lambda>b. ToUpper (Hash b)) ` set (Blocks snap)"
  by (auto simp add: CalculateKnownBlocks_def Let_def)

lemma known_entries:
  assumes "K \<subseteq> f ` set bs"
  shows "card K \<le> length (filter (\<lambda>b. f b \<in> K) bs)"
proof -
  have "K = f ` set (filter (\<lambda>b. f b \<in> K) bs)"
    using assms by auto
  then have "card K = card (f ` set (filter (\<lambda>b. f b \<in> K) bs))" by simp
  also have "\<dots> \<le> card (set (filter (\<lambda>b. f b \<in> K) bs))"
    by (rule card_image_le) simp
  also have "\<dots> \<le> length (filter (\<lambda>b. f b \<in> K) bs)"
    by (rule card_length)
  finally show ?thesis .
qed

lemma block_requests_length:
  "length (block_requests K bs) + length (filter (\<lambda>b. ToUpper (Hash b) \<in> K) bs) = length bs"
  using sum_length_filter_compl[of "\<lambda>b. ToUpper (Hash b) \<in> K" bs]
  by (simp add: block_requests_def)

lemma block_requests_count:
  "block_count (map snd (block_requests K bs)) = length (block_requests K bs)"
  "blob_count (map snd (block_requests K bs)) = 0"
  by (simp_all add: block_requests_def block_count_def blob_count_def o_def)

lemma block_requests_bound:
  assumes "K \<subseteq> (\<lambda>b. ToUpper (Hash b)) ` set bs"
  shows "length (block_requests K bs) \<le> length bs - card K"
  using known_entries[OF assms] block_requests_length[of K bs] by simp

lemma known_blocks_le:
  "card (CalculateKnownBlocks statement_ok db p snap) \<le> length (Blocks snap)"
  by (rule order_trans[OF known_entries[OF CalculateKnownBlocks_remote] length_filter_le])

lemma session_inv_construct:
  "session_inv (construct attach_ok statement_ok time db projectInfo snapshotInfo path)"
proof (cases attach_ok statement_ok time db projectInfo snapshotInfo path rule: construct_cases)
  case NotAttached
  then show ?thesis
    by (simp add: session_inv_def inv_count_def inv_flight_def inv_success_def inv_errors_def
          inv_cancel_def inv_attempts_def inv_tracked_def opens new_session_def
          error_reports_def attempts_def)
next
  case ShortCircuit
  then show ?thesis
    by (simp add: session_inv_def inv_count_def inv_flight_def inv_success_def inv_errors_def
          inv_cancel_def inv_attempts_def inv_tracked_def opens new_session_def
          error_reports_def attempts_def)
next
  case Start
  have "length (block_requests (CalculateKnownBlocks statement_ok db projectInfo snapshotInfo)
          (Blocks snapshotInfo))
        \<le> length (Blocks snapshotInfo) -
          card (CalculateKnownBlocks statement_ok db projectInfo snapshotInfo)"
    by (rule block_requests_bound[OF CalculateKnownBlocks_remote])
  then show ?thesis
    by (simp add: Start(3) session_inv_def inv_count_def inv_flight_def inv_success_def
          inv_errors_def inv_cancel_def inv_attempts_def inv_tracked_def opens new_session_def
          error_reports_def attempts_def block_requests_count)
qed

text \<open>
  The counter of downloaded blocks, and the members that no step changes.
\<close>

lemma downloaded_callback:
  "mDownloadedBlocks (RequestFinishedCallback r rp s) =
     mDownloadedBlocks s +
       (if handler r \<noteq> ProjectBlobHandler \<and> getError rp = NoError \<and>
           decompressed rp \<noteq> None \<and> run1_ok rp \<and> stmt2_ok rp \<and> run2_ok rp \<and> commit_ok rp
        then 1 else 0)"
proof (cases "getError rp = NoError")
  case False
  then show ?thesis
    by (simp add: RequestFinishedCallback_def prims0)
next
  case ok: True
  show ?thesis
  proof (cases "handler r")
    case ProjectBlobHandler
    have "mDownloadedBlocks (OnProjectBlobDownloaded (rid r) rp s) = mDownloadedBlocks s"
      by (rule OnProjectBlobDownloaded_cases) (simp_all add: prims0)
    then show ?thesis
      using ok ProjectBlobHandler
      by (simp add: RequestFinishedCallback_def onSuccess_def RemoveRequest_def)
  next
    case (BlockHandler h)
    then show ?thesis
      using ok
      by (simp add: RequestFinishedCallback_def onSuccess_def RemoveRequest_def
            OnBlockDownloaded_def OnFailure_def mCallback_def Let_def split: option.split)
  qed
qed

lemma downloaded_step:
  assumes "step s e = Some s'"
  shows "mDownloadedBlocks s' = mDownloadedBlocks s + (if commits_block s e then 1 else 0)"
proof (cases e)
  case RequestsThreadTurn
  with assms show ?thesis
    by (auto simp add: step_def commits_block_def RequestsThread_turn_def DownloadBlob_def
          Let_def split: if_splits)
next
  case (RequestFinished i rp)
  with assms show ?thesis
    by (auto simp add: step_def commits_block_def downloaded_callback split: option.splits)
next
  case CancelCalled
  with assms show ?thesis
    by (auto simp add: step_def commits_block_def Cancel_fields)
qed

lemma downloaded_run:
  "run s evs = Some s' \<Longrightarrow> mDownloadedBlocks s' = mDownloadedBlocks s + committed_blocks s evs"
proof (induction evs arbitrary: s)
  case Nil
  then show ?case by simp
next
  case (Cons e evs)
  then obtain s1 where s1: "step s e = Some s1" "run s1 evs = Some s'"
    by (auto split: option.splits)
  with Cons.IH[OF s1(2)] downloaded_step[OF s1(1)] show ?case by simp
qed

lemma frame_step:
  assumes "step s e = Some s'"
  shows "mMissingBlocks s' = mMissingBlocks s" "mRequests s' = mRequests s"
  using assms
  by (cases rule: step_cases; simp add: prims0 Cancel_fields)+

lemma frame_run:
  "run s evs = Some s' \<Longrightarrow> mMissingBlocks s' = mMissingBlocks s \<and> mRequests s' = mRequests s"
  by (rule run_invariant[where P = "\<lambda>x. mMissingBlocks x = mMissingBlocks s \<and>
        mRequests x = mRequests s"]) (simp_all add: frame_step)

lemma downloaded_le_missing: "inv_count s \<Longrightarrow> mDownloadedBlocks s \<le> mMissingBlocks s"
  by (simp add: inv_count_def blocks_open_def)

lemma single_known_entry:
  assumes "K \<subseteq> f ` set bs" "length (filter (\<lambda>b. f b \<in> K) bs) = 1"
  shows "card K = 1"
proof -
  from assms(2) obtain b where b: "filter (\<lambda>b. f b \<in> K) bs = [b]"
    by (cases "filter (\<lambda>b. f b \<in> K) bs") auto
  have "K = f ` set (filter (\<lambda>b. f b \<in> K) bs)"
    using assms(1) by auto
  then have "K = {f b}" by (simp add: b)
  then show ?thesis by simp
qed

text \<open>
  The reports that a step and an execution add.
\<close>

lemma new_reports_step:
  assumes "step s e = Some s'" "session_inv s"
  shows "\<exists>new. reports s' = reports s @ new \<and> list_all report_shape new \<and>
           (mFailed s \<or> mCancelled s \<longrightarrow> list_all (\<lambda>r. \<not> success r) new) \<and>
           (mCancelled s \<longrightarrow> list_all (\<lambda>r. cancelled r \<or> error r \<noteq> []) new)"
  using assms(1)
proof (cases rule: step_cases)
  case Exit
  then show ?thesis by simp
next
  case Wait
  then show ?thesis by simp
next
  case Dispatch
  then show ?thesis by (simp add: prims0)
next
  case CancelCall
  then show ?thesis by (simp add: Cancel_fields report_shape_def)
next
  case (Cancelled r)
  then show ?thesis by (simp add: prims0)
next
  case (Failed r err)
  then show ?thesis by (simp add: prims0 report_shape_def)
next
  case (Rejected r err)
  then show ?thesis by (simp add: prims0 report_shape_def)
next
  case (Retry r)
  then show ?thesis by (simp add: prims0)
next
  case (Blob r t st)
  have c: "inv_count s" using assms(2) by (simp add: session_inv_def)
  have "1 \<le> blob_count (in_flight s)"
    using pending_removed(2)[OF Blob(1)] Blob(2) by (simp add: in_flight_def)
  with c have "mFailed s \<longrightarrow> mDownloadedBlocks s \<noteq> mMissingBlocks s"
    by (auto simp add: inv_count_def blocks_open_def blob_open_def)
  with Blob(3) show ?thesis
    by (simp add: RemoveRequest_def ReportProgress_reports report_shape_def)
next
  case (Block r t st)
  have c: "inv_count s" using assms(2) by (simp add: session_inv_def)
  have "1 \<le> block_count (in_flight s)"
    using pending_removed(1)[OF Block(1)] Block(2) by (simp add: in_flight_def)
  with c have "mFailed s \<longrightarrow> \<not> (Suc (mDownloadedBlocks s) = mMissingBlocks s \<and> mProjectDownloaded s)"
    by (auto simp add: inv_count_def blocks_open_def blob_open_def)
  with Block(3) show ?thesis
    by (simp add: RemoveRequest_def ReportProgress_reports report_shape_def)
qed

lemma flags_step:
  assumes "step s e = Some s'"
  shows "mFailed s \<longrightarrow> mFailed s'" "mCancelled s \<longrightarrow> mCancelled s'"
  using assms
  by (cases rule: step_cases; simp add: prims0 Cancel_fields)+

lemma new_reports_run:
  "run s evs = Some s' \<Longrightarrow> session_inv s \<Longrightarrow>
     (mFailed s \<longrightarrow> mFailed s') \<and> (mCancelled s \<longrightarrow> mCancelled s') \<and>
     (\<exists>new. reports s' = reports s @ new \<and> list_all report_shape new \<and>
        (mFailed s \<or> mCancelled s \<longrightarrow> list_all (\<lambda>r. \<not> success r) new) \<and>
        (mCancelled s \<longrightarrow> list_all (\<lambda>r. cancelled r \<or> error r \<noteq> []) new))"
proof (induction evs arbitrary: s)
  case Nil
  then show ?case by simp
next
  case (Cons e evs)
  then obtain s1 where s1: "step s e = Some s1" "run s1 evs = Some s'"
    by (auto split: option.splits)
  have i1: "session_inv s1" using session_inv_step[OF s1(1) Cons.prems(2)] .
  from new_reports_step[OF s1(1) Cons.prems(2)] obtain n1 where
    n1: "reports s1 = reports s @ n1" "list_all report_shape n1"
      "mFailed s \<or> mCancelled s \<longrightarrow> list_all (\<lambda>r. \<not> success r) n1"
      "mCancelled s \<longrightarrow> list_all (\<lambda>r. cancelled r \<or> error r \<noteq> []) n1"
    by blast
  from Cons.IH[OF s1(2) i1] obtain n2 where
    n2: "mFailed s1 \<longrightarrow> mFailed s'" "mCancelled s1 \<longrightarrow> mCancelled s'"
      "reports s' = reports s1 @ n2" "list_all report_shape n2"
      "mFailed s1 \<or> mCancelled s1 \<longrightarrow> list_all (\<lambda>r. \<not> success r) n2"
      "mCancelled s1 \<longrightarrow> list_all (\<lambda>r. cancelled r \<or> error r \<noteq> []) n2"
    by blast
  have "reports s' = reports s @ (n1 @ n2)" using n1(1) n2(3) by simp
  moreover have "list_all report_shape (n1 @ n2)" using n1(2) n2(4) by simp
  moreover have "mFailed s \<or> mCancelled s \<longrightarrow> list_all (\<lambda>r. \<not> success r) (n1 @ n2)"
    using n1(3) n2(5) flags_step[OF s1(1)] by auto
  moreover have "mCancelled s \<longrightarrow> list_all (\<lambda>r. cancelled r \<or> error r \<noteq> []) (n1 @ n2)"
    using n1(4) n2(6) flags_step[OF s1(1)] by auto
  ultimately show ?case using n2(1,2) flags_step[OF s1(1)] by blast
qed

lemma construct_reports:
  "list_all (\<lambda>r. \<not> cancelled r \<and> error r = [] \<and> success r \<and> completed r)
     (reports (construct attach_ok statement_ok time db projectInfo snapshotInfo path))"
  by (cases attach_ok statement_ok time db projectInfo snapshotInfo path rule: construct_cases)
    (simp_all add: new_session_def)

text \<open>
  The length test of the project blob in 64-bit arithmetic.
\<close>

lemma blob_length_test:
  fixes d :: "64 word"
  assumes "8 + unat d < 2 ^ 64" "n < 8 + unat d"
  shows "(of_nat n :: 64 word) < 8 + d"
proof -
  have "unat (8 :: 64 word) + unat d < 2 ^ LENGTH(64)"
    using assms(1) by simp
  then have "unat (8 + d) = unat (8 :: 64 word) + unat d"
    by (simp only: unat_add_lem)
  then have e: "unat (8 + d) = 8 + unat d" by simp
  have "n < 2 ^ 64" using assms by simp
  then have "unat (of_nat n :: 64 word) = n"
    by (simp add: unat_of_nat)
  with e show ?thesis using assms(2) by (simp add: word_less_nat_alt)
qed

lemma malformed_blob:
  assumes "length (readAll rp) < 8 \<or>
           8 + unat (read_dictSize (readAll rp)) < 2 ^ 64 \<and>
           length (readAll rp) < 8 + unat (read_dictSize (readAll rp))"
  shows "OnProjectBlobDownloaded response rp s =
           OnFailure response ''Failed to download the cloud project'' s"
proof (cases "length (readAll rp) < 8")
  case True
  then show ?thesis by (simp add: OnProjectBlobDownloaded_def)
next
  case False
  with assms have "(of_nat (length (readAll rp)) :: 64 word) < 8 + read_dictSize (readAll rp)"
    by (intro blob_length_test) simp_all
  with False show ?thesis by (simp add: OnProjectBlobDownloaded_def Let_def)
qed

text \<open>
  A download that arrives and is then rejected by its handler releases its slot twice:
  \<^verbatim>\<open>OnFailure\<close> calls \<^verbatim>\<open>RemoveRequest\<close>, and so does the finished callback when the
  handler returns. The session is failed by then, so the scheduler dispatches nothing
  more.
\<close>

lemma rejected_download_releases_twice:
  assumes "getError rp = NoError" "handler r = ProjectBlobHandler" "length (readAll rp) < 8"
  shows "mRequestsInProgress (RequestFinishedCallback r rp s) = mRequestsInProgress s - 2"
    and "mFailed (RequestFinishedCallback r rp s)"
  using assms
  by (simp_all add: RequestFinishedCallback_def onSuccess_def OnProjectBlobDownloaded_def
        prims0)

lemma blob_length_test_wraps:
  "read_dictSize [255, 255, 255, 255, 255, 255, 255, 255] = 2 ^ 64 - 1 \<and>
   \<not> (of_nat (length [255, 255, 255, 255, 255, 255, 255, 255 :: byte]) :: 64 word)
        < 8 + read_dictSize [255, 255, 255, 255, 255, 255, 255, 255] \<and>
   mProjectDownloaded
     (OnProjectBlobDownloaded i
        (example_reply NoError 200 [255, 255, 255, 255, 255, 255, 255, 255]) s) \<and>
   \<not> mFailed
     (OnProjectBlobDownloaded i
        (example_reply NoError 200 [255, 255, 255, 255, 255, 255, 255, 255])
        (s\<lparr>mFailed := False\<rparr>))"
proof -
  have d: "read_dictSize [255, 255, 255, 255, 255, 255, 255, 255] = 2 ^ 64 - 1"
    by (simp add: read_dictSize_def)
  then show ?thesis
    by (simp add: OnProjectBlobDownloaded_def example_reply_def Let_def)
qed

text \<open>
  Block lists with a repeated hash, and sessions that are short-circuited.
\<close>

lemma duplicate_known_entry:
  assumes "K \<subseteq> f ` set bs" "bs = xs @ b1 # ys @ b2 # zs" "f b1 = f b2" "f b1 \<in> K"
  shows "card K < length (filter (\<lambda>b. f b \<in> K) bs)"
proof -
  have "K \<subseteq> f ` set (xs @ b1 # ys @ zs)"
    using assms(1,2,3) by auto
  from known_entries[OF this]
  have "card K \<le> length (filter (\<lambda>b. f b \<in> K) (xs @ b1 # ys @ zs))" .
  also have "\<dots> < length (filter (\<lambda>b. f b \<in> K) bs)"
    using assms(2,3,4) by simp
  finally show ?thesis .
qed

lemma shape_run:
  assumes "run (construct attach_ok statement_ok time db projectInfo snapshotInfo path) evs
             = Some s"
  shows "list_all report_shape (reports s)"
proof -
  let ?c = "construct attach_ok statement_ok time db projectInfo snapshotInfo path"
  from new_reports_run[OF assms session_inv_construct] obtain new where
    "reports s = reports ?c @ new" "list_all report_shape new"
    by blast
  moreover have "list_all report_shape (reports ?c)"
    using construct_reports[of attach_ok statement_ok time db projectInfo snapshotInfo path]
    by (auto simp add: list_all_iff report_shape_def)
  ultimately show ?thesis by simp
qed

lemma covering_distinct:
  assumes "K = f ` set bs" "distinct (map f bs)"
  shows "card K = length bs"
  using assms distinct_card[of "map f bs"] by simp

lemma idle_step:
  assumes "step s e = Some s'"
    and "mRequestsThread s = NotStarted \<and> pending s = [] \<and> fetches s = []"
  shows "mRequestsThread s' = NotStarted \<and> pending s' = [] \<and> fetches s' = []"
  using assms by (cases e) (auto simp add: step_def Cancel_fields)

lemma short_circuit:
  assumes "attach_ok"
    and "card (CalculateKnownBlocks statement_ok db projectInfo snapshotInfo)
           = length (Blocks snapshotInfo)"
    and "known_condition db projectInfo snapshotInfo"
    and "run (construct attach_ok statement_ok time db projectInfo snapshotInfo path) evs
           = Some s"
  shows "reports (construct attach_ok statement_ok time db projectInfo snapshotInfo path) =
           [\<lparr>downloadedBlocks = 0, missingBlocks = 0, error = [],
             projectBlobDownloaded = True, completed = True, success = True,
             cancelled = False\<rparr>]"
    and "mRequestsThread s = NotStarted" "fetches s = []"
    and "length (filter success (reports s)) = 1"
proof -
  let ?c = "construct attach_ok statement_ok time db projectInfo snapshotInfo path"
  have c: "reports ?c = [\<lparr>downloadedBlocks = 0, missingBlocks = 0, error = [],
             projectBlobDownloaded = True, completed = True, success = True,
             cancelled = False\<rparr>]"
    "mRequestsThread ?c = NotStarted \<and> pending ?c = [] \<and> fetches ?c = []"
    using assms(1,2,3)
    by (cases attach_ok statement_ok time db projectInfo snapshotInfo path
          rule: construct_cases; simp add: new_session_def)+
  show "reports ?c = [\<lparr>downloadedBlocks = 0, missingBlocks = 0, error = [],
             projectBlobDownloaded = True, completed = True, success = True,
             cancelled = False\<rparr>]"
    by (rule c(1))
  have "mRequestsThread s = NotStarted \<and> pending s = [] \<and> fetches s = []"
    by (rule run_invariant[where P = "\<lambda>x. mRequestsThread x = NotStarted \<and> pending x = [] \<and>
          fetches x = []", OF _ assms(4) c(2)]) (rule idle_step)
  then show "mRequestsThread s = NotStarted" "fetches s = []" by simp_all
  from new_reports_run[OF assms(4) session_inv_construct] obtain new where
    n: "reports s = reports ?c @ new" by blast
  have "session_inv s" using session_inv_run[OF assms(4) session_inv_construct] .
  then have "length (filter success (reports s)) \<le> 1"
    by (auto simp add: session_inv_def inv_success_def)
  then show "length (filter success (reports s)) = 1"
    by (simp add: n c(1))
qed

section \<open>Properties of the moves\<close>

lemma thread_split:
  assumes "k < length ts" "ts ! k = a # rest"
  obtains pre post where "concat ts = pre @ a # post"
    and "\<And>new. concat (ts[k := new @ rest]) = pre @ new @ post"
proof -
  have ts: "ts = take k ts @ (a # rest) # drop (Suc k) ts"
    using assms by (metis id_take_nth_drop)
  have "concat ts = concat (take k ts) @ a # (rest @ concat (drop (Suc k) ts))"
    by (subst ts) simp
  moreover have "concat (ts[k := new @ rest]) =
      concat (take k ts) @ new @ (rest @ concat (drop (Suc k) ts))" for new
    using assms(1) by (simp add: upd_conv_take_nth_drop)
  ultimately show ?thesis using that by blast
qed

lemma move_cases [consumes 1, case_names Advance Finish CallCancel]:
  assumes "move m e = Some m'"
  obtains
    (Advance) k a s' new pre post where "e = Advance k"
      "exec a (shared m) = (s', new)" "shared m' = s'"
      "accesses m = pre @ a # post" "accesses m' = pre @ new @ post"
  | (Finish) i rp r where "e = Finish i rp"
      "find (\<lambda>r. rid r = i) (pending (shared m)) = Some r"
      "shared m' = (shared m)\<lparr>pending := filter (\<lambda>x. rid x \<noteq> i) (pending (shared m))\<rparr>"
      "accesses m' = accesses m @ RequestFinishedCallback_plan r rp"
  | (CallCancel) "e = CallCancel" "shared m' = shared m"
      "accesses m' = accesses m @ Cancel_plan"
proof (cases e)
  case (Advance k)
  with assms have k: "k < length (threads m)"
    by (simp add: move_def split: if_splits)
  with assms Advance obtain a rest where t: "threads m ! k = a # rest"
    by (cases "threads m ! k") (simp_all add: move_def)
  obtain s' new where x: "exec a (shared m) = (s', new)" by (cases "exec a (shared m)")
  from assms Advance k t x
  have m': "m' = \<lparr>shared = s', threads = (threads m)[k := new @ rest]\<rparr>"
    by (simp add: move_def)
  from thread_split[OF k t] obtain pre post where
    "concat (threads m) = pre @ a # post"
    "\<And>new. concat ((threads m)[k := new @ rest]) = pre @ new @ post" by blast
  then show ?thesis
    using that(1)[OF Advance x, of pre post] m' by (simp add: accesses_def)
next
  case (Finish i rp)
  with assms obtain r where f: "find (\<lambda>r. rid r = i) (pending (shared m)) = Some r"
    by (cases "find (\<lambda>r. rid r = i) (pending (shared m))") (simp_all add: move_def)
  with assms Finish show ?thesis
    using that(2)[OF Finish f] by (auto simp add: move_def accesses_def)
next
  case CallCancel
  with assms show ?thesis
    using that(3) by (auto simp add: move_def accesses_def)
qed

lemma plan_cases [case_names Cancelled Failed Retry Rejected Blob Block]:
  assumes "Q (RemoveRequest_plan (rid r))"
    and "\<And>err. err \<noteq> [] \<Longrightarrow> Q (OnFailure_plan (rid r) err)"
    and "Q [DoGet (req r) (rurl r) (handler r) (retries r - 1)]"
    and "\<And>err. err \<noteq> [] \<Longrightarrow> Q (OnFailure_plan (rid r) err @ RemoveRequest_plan (rid r))"
    and "\<And>dict doc t. handler r = ProjectBlobHandler \<Longrightarrow>
           Q (CommitBlob dict doc # StoreProjectDownloaded # TestCancelled t #
              RemoveRequest_plan (rid r))"
    and "\<And>h b t. handler r = BlockHandler h \<Longrightarrow>
           Q (CommitBlock h b # IncDownloaded # TestCancelled t # RemoveRequest_plan (rid r))"
  shows "Q (RequestFinishedCallback_plan r rp)"
proof -
  have blob: "Q (OnProjectBlobDownloaded_plan (rid r) rp @ RemoveRequest_plan (rid r))"
    if "handler r = ProjectBlobHandler"
    unfolding OnProjectBlobDownloaded_plan_def Let_def ReportProgress_plan_def
    using assms(5)[OF that] by (simp add: assms(4))
  have block: "Q (OnBlockDownloaded_plan h (rid r) rp @ RemoveRequest_plan (rid r))"
    if "handler r = BlockHandler h" for h
    unfolding OnBlockDownloaded_plan_def Let_def ReportProgress_plan_def
    using assms(6)[OF that] by (simp add: assms(4) split: option.split)
  have "Q (onSuccess_plan (handler r) (rid r) rp @ RemoveRequest_plan (rid r))"
    using blob block by (cases "handler r") (simp_all add: onSuccess_plan_def)
  then show ?thesis
    unfolding RequestFinishedCallback_plan_def
    by (simp add: assms(1,2,3))
qed

lemma abort_fold:
  "fold (\<lambda>response s. s\<lparr>aborted := aborted s @ [response]\<rparr>) xs t =
     t\<lparr>aborted := aborted t @ xs\<rparr>" for t :: Session
  by (induction xs arbitrary: t) simp_all

lemmas exec_defs = Let_def mCallback_def MarkProjectInDB_def abort_fold

lemma exec_frame:
  assumes "exec a s = (s', new)"
  shows "mMissingBlocks s' = mMissingBlocks s \<and> mRequests s' = mRequests s \<and>
    mDownloadedBlocks s \<le> mDownloadedBlocks s' \<and>
    (mProjectDownloaded s \<longrightarrow> mProjectDownloaded s') \<and>
    (mFailed s \<longrightarrow> mFailed s') \<and> (mCancelled s \<longrightarrow> mCancelled s') \<and>
    take (length (reports s)) (reports s') = reports s \<and>
    SetFailed \<notin> set new \<and> (mFailed s' \<longleftrightarrow> mFailed s \<or> a = SetFailed)"
  using assms
  by (cases a; clarsimp simp add: exec_defs split: if_splits)

lemma exec_tokens:
  assumes "exec a s = (s', new)"
  shows "blocks_open s' + sum_list (map block_token new) \<le> blocks_open s + block_token a \<and>
         blob_open s' + sum_list (map blob_token new) \<le> blob_open s + blob_token a"
proof (cases a)
  case SchedLocked
  show ?thesis
  proof (cases "new = [] \<or> new = [SchedLocked]")
    case True
    with assms SchedLocked show ?thesis
      by (auto simp add: opens Let_def split: if_splits)
  next
    case False
    with assms SchedLocked have i: "mNextRequestIndex s < length (mRequests s)"
      by (auto simp add: Let_def split: if_splits)
    with assms SchedLocked False
    have s': "s' = s\<lparr>mNextRequestIndex := Suc (mNextRequestIndex s),
                      mRequestsInProgress := mRequestsInProgress s + 1\<rparr>"
      and new: "new = [DoGet (mNextRequestIndex s) (fst (mRequests s ! mNextRequestIndex s))
                        (snd (mRequests s ! mNextRequestIndex s)) 3, SchedLoop]"
      by (auto simp add: Let_def split: if_splits)
    show ?thesis
      using queued_dispatch[OF i]
      by (simp add: SchedLocked new blocks_open_def blob_open_def in_flight_def s' queued_def)
  qed
qed (use assms in \<open>clarsimp simp add: opens exec_defs split: if_splits\<close>)+

lemma plan_tokens:
  "sum_list (map block_token (RequestFinishedCallback_plan r rp)) \<le>
     (if handler r = ProjectBlobHandler then 0 else 1) \<and>
   sum_list (map blob_token (RequestFinishedCallback_plan r rp)) \<le>
     (if handler r = ProjectBlobHandler then 1 else 0) \<and>
   (SetFailed \<in> set (RequestFinishedCallback_plan r rp) \<longrightarrow>
      sum_list (map block_token (RequestFinishedCallback_plan r rp)) = 0 \<and>
      sum_list (map blob_token (RequestFinishedCallback_plan r rp)) = 0)"
  by (rule plan_cases) (simp_all add: RemoveRequest_plan_def OnFailure_plan_def)

text \<open>
  What no move undoes: the counters and flags only grow, the reports are only
  appended to, the downloads left only shrink, and they shrink when a failure begins.
\<close>

lemma mono_step:
  assumes "move m e = Some m'"
  shows "blocks_left m' \<le> blocks_left m \<and> blob_left m' \<le> blob_left m \<and>
    mMissingBlocks (shared m') = mMissingBlocks (shared m) \<and>
    mDownloadedBlocks (shared m) \<le> mDownloadedBlocks (shared m') \<and>
    (mProjectDownloaded (shared m) \<longrightarrow> mProjectDownloaded (shared m')) \<and>
    (mFailed (shared m) \<longrightarrow> mFailed (shared m')) \<and>
    (mCancelled (shared m) \<longrightarrow> mCancelled (shared m')) \<and>
    take (length (reports (shared m))) (reports (shared m')) = reports (shared m) \<and>
    (failing m \<longrightarrow> failing m') \<and>
    (failing m' \<and> \<not> failing m \<longrightarrow>
       blocks_left m' < blocks_left m \<or> blob_left m' < blob_left m)"
  using assms
proof (cases rule: move_cases)
  case (Advance k a s' new pre post)
  from exec_frame[OF Advance(2)] exec_tokens[OF Advance(2)]
  show ?thesis
    by (auto simp add: blocks_left_def blob_left_def failing_def Advance(3,4,5))
next
  case (Finish i rp r)
  from find_SomeD[OF Finish(2)] have r: "r \<in> set (pending (shared m))" "rid r = i"
    by simp_all
  from pending_removed[OF r(1)] plan_tokens[of r rp]
  show ?thesis
    by (auto simp add: blocks_left_def blob_left_def failing_def Finish(3,4) r(2) opens
          simp del: sum_list_eq_0_iff split: if_splits)
next
  case CallCancel
  then show ?thesis
    by (auto simp add: blocks_left_def blob_left_def failing_def Cancel_plan_def)
qed

lemma inv_tokens_step:
  assumes "move m e = Some m'" "inv_tokens m"
  shows "inv_tokens m'"
  using mono_step[OF assms(1)] assms(2)
  by (auto simp add: inv_tokens_def)

lemma carried_ok_mono:
  assumes "carried_ok s a" "mMissingBlocks s' = mMissingBlocks s"
    "mDownloadedBlocks s \<le> mDownloadedBlocks s'"
    "mProjectDownloaded s \<longrightarrow> mProjectDownloaded s'"
  shows "carried_ok s' a"
  using assms by (cases a) auto

lemma exec_carried:
  assumes "exec a s = (s', new)" "carried_ok s a"
  shows "list_all (carried_ok s') new"
  using assms
  by (cases a; clarsimp simp add: exec_defs split: if_splits)

lemma plan_carried: "list_all (carried_ok s) (RequestFinishedCallback_plan r rp)"
  by (rule plan_cases) (simp_all add: RemoveRequest_plan_def OnFailure_plan_def)

lemma inv_carried_step:
  assumes "move m e = Some m'" "inv_carried m"
  shows "inv_carried m'"
  using assms(1)
proof (cases rule: move_cases)
  case (Advance k a s' new pre post)
  from assms(2) have c: "list_all (carried_ok (shared m)) pre" "carried_ok (shared m) a"
    "list_all (carried_ok (shared m)) post"
    by (simp_all add: inv_carried_def Advance(4))
  have "carried_ok s' x" if "carried_ok (shared m) x" for x
    using carried_ok_mono[OF that] exec_frame[OF Advance(2)] by blast
  with c exec_carried[OF Advance(2) c(2)] show ?thesis
    by (auto simp add: inv_carried_def Advance(3,5) list_all_iff)
next
  case (Finish i rp r)
  have "carried_ok (shared m') x" if "carried_ok (shared m) x" for x
    using carried_ok_mono[OF that, of "shared m'"] by (simp add: Finish(3))
  with assms(2) plan_carried[of "shared m'" r rp] show ?thesis
    by (auto simp add: inv_carried_def Finish(4) list_all_iff)
next
  case CallCancel
  with assms(2) show ?thesis
    by (simp add: inv_carried_def Cancel_plan_def)
qed

text \<open>
  The report of one access, if it emits one: its kind is the kind of the access, and
  its fields are what the thread carried.
\<close>

lemma exec_report:
  assumes "exec a s = (s', new)" "carried_ok s a"
  shows "(reports s' = reports s \<and>
          length (filter failure_due new) = (if failure_due a then 1 else 0) \<and>
          length (filter cancel_due new) = (if cancel_due a then 1 else 0) \<and>
          (mCancelled s \<longrightarrow>
             length (filter past_test new) \<le> (if past_test a then 1 else 0))) \<or>
         (\<exists>r. reports s' = reports s @ [r] \<and> new = [] \<and> report_ok s' r \<and>
              (cancelled r \<longleftrightarrow> cancel_due a) \<and> (error r \<noteq> [] \<longleftrightarrow> failure_due a) \<and>
              (progress_report r \<longleftrightarrow> past_test a) \<and>
              (success r \<longrightarrow> mMissingBlocks s' \<le> mDownloadedBlocks s' \<and>
                 mProjectDownloaded s'))"
  using assms
  by (cases a; clarsimp simp add: exec_defs report_ok_def report_shape_def
        progress_report_def failure_due_def cancel_due_def
        split: if_splits ReportKind.splits)

lemma report_ok_mono:
  assumes "report_ok s r" "mMissingBlocks s' = mMissingBlocks s"
    "mDownloadedBlocks s \<le> mDownloadedBlocks s'"
    "mProjectDownloaded s \<longrightarrow> mProjectDownloaded s'"
  shows "report_ok s' r"
  using assms by (auto simp add: report_ok_def)

text \<open>
  The reports of a move: none, or one at the end of the list, of the kind of the access
  that emits it.
\<close>

lemma move_report:
  assumes "move m e = Some m'" "inv_carried m"
  shows "reports (shared m') = reports (shared m) \<or>
         (\<exists>r. reports (shared m') = reports (shared m) @ [r] \<and> report_ok (shared m') r \<and>
              (success r \<longrightarrow> mMissingBlocks (shared m') \<le> mDownloadedBlocks (shared m') \<and>
                 mProjectDownloaded (shared m')))"
  using assms(1)
proof (cases rule: move_cases)
  case (Advance k a s' new pre post)
  from assms(2) have "carried_ok (shared m) a"
    by (simp add: inv_carried_def Advance(4))
  from exec_report[OF Advance(2) this] show ?thesis
    by (auto simp add: Advance(3))
qed simp_all

lemma inv_reports_step:
  assumes "move m e = Some m'" "inv_carried m" "inv_reports m"
  shows "inv_reports m'"
proof -
  have "report_ok (shared m') r" if "report_ok (shared m) r" for r
    using report_ok_mono[OF that] mono_step[OF assms(1)] by blast
  with assms(3) move_report[OF assms(1,2)] show ?thesis
    by (auto simp add: inv_reports_def list_all_iff)
qed

lemma left_ge:
  "mDownloadedBlocks (shared m) \<le> blocks_left m"
  "(if mProjectDownloaded (shared m) then 1 else 0) \<le> blob_left m"
  by (simp_all add: blocks_left_def blob_left_def opens)

lemma inv_done_step:
  assumes "move m e = Some m'" "inv_carried m" "inv_done m" "inv_tokens m'"
  shows "inv_done m'"
proof (cases "\<exists>r\<in>set (reports (shared m)). success r")
  case True
  with assms(3) have d: "\<not> failing m" "blocks_left m \<le> mDownloadedBlocks (shared m)"
    "blob_left m \<le> (if mProjectDownloaded (shared m) then 1 else 0)"
    by (simp_all add: inv_done_def)
  from mono_step[OF assms(1)] d left_ge[of m'] show ?thesis
    by (auto simp add: inv_done_def split: if_splits)
next
  case False
  show ?thesis
  proof (cases "\<exists>r\<in>set (reports (shared m')). success r")
    case True
    with False move_report[OF assms(1,2)]
    have f: "mMissingBlocks (shared m') \<le> mDownloadedBlocks (shared m')"
      "mProjectDownloaded (shared m')"
      by auto
    with assms(4) left_ge[of m'] show ?thesis
      by (auto simp add: inv_done_def inv_tokens_def)
  next
    case False
    then show ?thesis by (simp add: inv_done_def)
  qed
qed

text \<open>
  Counting reports. Every call of \<^verbatim>\<open>Cancel()\<close> and every callback that calls
  \<^verbatim>\<open>OnFailure\<close> holds one report of its kind until it emits it; a call of
  \<^verbatim>\<open>ReportProgress\<close> that meets the cancellation flag set emits nothing.
\<close>

lemma plan_due:
  "length (filter failure_due (RequestFinishedCallback_plan r rp)) =
     (if calls_OnFailure r rp then 1 else 0) \<and>
   filter cancel_due (RequestFinishedCallback_plan r rp) = [] \<and>
   filter past_test (RequestFinishedCallback_plan r rp) = [] \<and>
   SetCancelled \<notin> set (RequestFinishedCallback_plan r rp) \<and>
   NotifyCV \<notin> set (RequestFinishedCallback_plan r rp)"
  unfolding calls_OnFailure_def
  by (rule plan_cases)
    (simp_all add: RemoveRequest_plan_def OnFailure_plan_def failure_due_def cancel_due_def)

lemma count_step:
  assumes "move m e = Some m'" "inv_carried m"
  shows "length (filter cancelled (reports (shared m'))) +
           length (filter cancel_due (accesses m')) =
         length (filter cancelled (reports (shared m))) +
           length (filter cancel_due (accesses m)) + (if e = CallCancel then 1 else 0) \<and>
         length (filter (\<lambda>r. error r \<noteq> []) (reports (shared m'))) +
           length (filter failure_due (accesses m')) =
         length (filter (\<lambda>r. error r \<noteq> []) (reports (shared m))) +
           length (filter failure_due (accesses m)) + (if download_fails m e then 1 else 0) \<and>
         (mCancelled (shared m) \<longrightarrow>
            length (filter progress_report (reports (shared m'))) +
              length (filter past_test (accesses m')) \<le>
            length (filter progress_report (reports (shared m))) +
              length (filter past_test (accesses m)))"
  using assms(1)
proof (cases rule: move_cases)
  case (Advance k a s' new pre post)
  from assms(2) have c: "carried_ok (shared m) a"
    by (simp add: inv_carried_def Advance(4))
  from exec_report[OF Advance(2) c] show ?thesis
    by (auto simp add: Advance(1,3,4,5) download_fails_def)
next
  case (Finish i rp r)
  from plan_due[of r rp] show ?thesis
    by (simp add: Finish(1,2,3,4) download_fails_def)
next
  case CallCancel
  show ?thesis
    by (simp add: CallCancel Cancel_plan_def cancel_due_def failure_due_def download_fails_def)
qed

text \<open>
  The store to the cancellation flag and the notification of a call of \<^verbatim>\<open>Cancel()\<close>.
  The other notifications are those of \<^verbatim>\<open>RemoveRequest\<close>, one for every decrement of the
  counter of requests in progress, which the scheduler thread increments with the index
  of the next request.
\<close>

lemma exec_cancel:
  assumes "exec a s = (s', new)"
  shows "SetCancelled \<notin> set new \<and> NotifyCV \<notin> set new \<and>
         (mCancelled s' \<longleftrightarrow> mCancelled s \<or> a = SetCancelled) \<and>
         int (notified s') + mRequestsInProgress s' + int (mNextRequestIndex s) =
           int (notified s) + mRequestsInProgress s + int (mNextRequestIndex s') +
           (if a = NotifyCV then 1 else 0)"
  using assms
  by (cases a; clarsimp simp add: exec_defs split: if_splits)

lemma cancel_step:
  assumes "move m e = Some m'"
  shows "(\<not> mCancelled (shared m') \<longrightarrow>
            length (filter (\<lambda>a. a = SetCancelled) (accesses m')) =
            length (filter (\<lambda>a. a = SetCancelled) (accesses m)) +
              (if e = CallCancel then 1 else 0)) \<and>
         int (notified (shared m')) + int (length (filter (\<lambda>a. a = NotifyCV) (accesses m'))) +
           mRequestsInProgress (shared m') + int (mNextRequestIndex (shared m)) =
         int (notified (shared m)) + int (length (filter (\<lambda>a. a = NotifyCV) (accesses m))) +
           mRequestsInProgress (shared m) + int (mNextRequestIndex (shared m')) +
           (if e = CallCancel then 1 else 0)"
  using assms
proof (cases rule: move_cases)
  case (Advance k a s' new pre post)
  from exec_cancel[OF Advance(2)]
  have "filter (\<lambda>a. a = NotifyCV) new = []" "filter (\<lambda>a. a = SetCancelled) new = []"
    by (auto simp add: filter_empty_conv)
  with exec_cancel[OF Advance(2)] show ?thesis
    by (auto simp add: Advance(1,3,4,5))
next
  case (Finish i rp r)
  from plan_due[of r rp] show ?thesis
    by (auto simp add: Finish(1,3,4) filter_empty_conv)
next
  case CallCancel
  show ?thesis
    by (simp add: CallCancel Cancel_plan_def)
qed

text \<open>The responses in flight and \<^verbatim>\<open>mResponses\<close>.\<close>

lemma exec_responses:
  assumes "exec a s = (s', new)"
  shows "(\<exists>i u h n. a = DoGet i u h n) \<or> (\<exists>r. a = Track r) \<or> (\<exists>r. a = Install r) \<or>
         (\<exists>i. a = EraseResponse i) \<or>
         (fetches s' = fetches s \<and> pending s' = pending s \<and> mResponses s' = mResponses s \<and>
          concat (map issued new) = [] \<and> concat (map erasing new) = [] \<and>
          concat (map recorded new) = [] \<and>
          issued a = [] \<and> erasing a = [] \<and> recorded a = [])"
  using assms
  by (cases a; clarsimp simp add: exec_defs issued_def split: if_splits)

lemma plan_responses:
  "concat (map issued (RequestFinishedCallback_plan r rp)) = [] \<and>
   concat (map recorded (RequestFinishedCallback_plan r rp)) = [] \<and>
   set (concat (map erasing (RequestFinishedCallback_plan r rp))) \<subseteq> {rid r}"
  by (rule plan_cases) (simp_all add: RemoveRequest_plan_def OnFailure_plan_def issued_def)

lemma responses_issue:
  assumes "distinct (P @ U1 @ U2)" "\<forall>i\<in>set (P @ U1 @ U2). i < n"
    "\<forall>i\<in>set (E1 @ E2). i < n \<and> i \<notin> set (P @ U1 @ U2)"
  shows "distinct (P @ U1 @ [n] @ U2) \<and> (\<forall>i\<in>set (P @ U1 @ [n] @ U2). i < Suc n) \<and>
         (\<forall>i\<in>set (E1 @ E2). i < Suc n \<and> i \<notin> set (P @ U1 @ [n] @ U2))"
  using assms by (auto simp add: less_Suc_eq)

lemma responses_install:
  assumes "distinct (P @ U1 @ [x] @ U2)" "\<forall>i\<in>set (P @ U1 @ [x] @ U2). i < n"
    "\<forall>i\<in>set (E1 @ E2). i < n \<and> i \<notin> set (P @ U1 @ [x] @ U2)"
    "set (P @ C1 @ [x] @ C2) \<subseteq> set R"
  shows "distinct ((P @ [x]) @ U1 @ U2) \<and> (\<forall>i\<in>set ((P @ [x]) @ U1 @ U2). i < n) \<and>
         (\<forall>i\<in>set (E1 @ E2). i < n \<and> i \<notin> set ((P @ [x]) @ U1 @ U2)) \<and>
         set ((P @ [x]) @ C1 @ C2) \<subseteq> set R"
  using assms by auto

lemma responses_erase:
  assumes "\<forall>i\<in>set (E1 @ [x] @ E2). i < n \<and> i \<notin> set (P @ U)" "set (P @ C) \<subseteq> set R"
    "set C \<subseteq> set U"
  shows "(\<forall>i\<in>set (E1 @ E2). i < n \<and> i \<notin> set (P @ U)) \<and>
         set (P @ C) \<subseteq> set (filter (\<lambda>r. r \<noteq> x) R)"
  using assms by auto

lemma recorded_issued: "set (concat (map recorded xs)) \<subseteq> set (concat (map issued xs))"
  by (auto simp add: issued_def)

lemma inv_responses_step:
  assumes "move m e = Some m'" "inv_responses m"
  shows "inv_responses m'"
  using assms(1)
proof (cases rule: move_cases)
  case (Advance k a s' new pre post)
  define P where "P = map rid (pending (shared m))"
  define U1 where "U1 = concat (map issued pre)"
  define U2 where "U2 = concat (map issued post)"
  define E1 where "E1 = concat (map erasing pre)"
  define E2 where "E2 = concat (map erasing post)"
  define C1 where "C1 = concat (map recorded pre)"
  define C2 where "C2 = concat (map recorded post)"
  define n where "n = length (fetches (shared m))"
  from assms(2) have i: "distinct (P @ U1 @ issued a @ U2)"
    "\<forall>i\<in>set (P @ U1 @ issued a @ U2). i < n"
    "\<forall>i\<in>set (E1 @ erasing a @ E2). i < n \<and> i \<notin> set (P @ U1 @ issued a @ U2)"
    "set (P @ C1 @ recorded a @ C2) \<subseteq> set (mResponses (shared m))"
    by (simp_all add: inv_responses_def issued_responses_def Advance(4) P_def U1_def U2_def E1_def
          E2_def C1_def C2_def n_def)
  have goal: "inv_responses m' \<longleftrightarrow>
    distinct (map rid (pending s') @ U1 @ concat (map issued new) @ U2) \<and>
    (\<forall>i\<in>set (map rid (pending s') @ U1 @ concat (map issued new) @ U2).
       i < length (fetches s')) \<and>
    (\<forall>i\<in>set (E1 @ concat (map erasing new) @ E2). i < length (fetches s') \<and>
       i \<notin> set (map rid (pending s') @ U1 @ concat (map issued new) @ U2)) \<and>
    set (map rid (pending s') @ C1 @ concat (map recorded new) @ C2) \<subseteq> set (mResponses s')"
    by (simp add: inv_responses_def issued_responses_def Advance(3,5) U1_def U2_def E1_def E2_def
          C1_def C2_def)
  have cu: "set (C1 @ C2) \<subseteq> set (U1 @ U2)"
    using recorded_issued[of pre] recorded_issued[of post]
    by (auto simp add: C1_def C2_def U1_def U2_def)
  from exec_responses[OF Advance(2)]
  consider (DoGet) i u h n where "a = DoGet i u h n" | (Track) r where "a = Track r"
    | (Install) r where "a = Install r" | (Erase) i where "a = EraseResponse i"
    | (Other) "fetches s' = fetches (shared m)" "pending s' = pending (shared m)"
        "mResponses s' = mResponses (shared m)" "concat (map issued new) = []"
        "concat (map erasing new) = []" "concat (map recorded new) = []"
        "issued a = []" "erasing a = []" "recorded a = []"
    by blast
  then show ?thesis
  proof cases
    case (DoGet j u h k)
    with Advance(2) have x: "length (fetches s') = Suc n"
      "map rid (pending s') = P" "mResponses s' = mResponses (shared m)"
      "concat (map issued new) = [n]" "concat (map erasing new) = []"
      "concat (map recorded new) = []"
      by (auto simp add: Let_def n_def P_def issued_def)
    from i have "distinct (P @ U1 @ U2)" "\<forall>i\<in>set (P @ U1 @ U2). i < n"
      "\<forall>i\<in>set (E1 @ E2). i < n \<and> i \<notin> set (P @ U1 @ U2)"
      by (simp_all add: DoGet issued_def)
    from responses_issue[OF this] i(4) show ?thesis unfolding goal x
      by (simp add: DoGet)
  next
    case (Track r)
    with Advance(2) have x: "length (fetches s') = n"
      "map rid (pending s') = P" "mResponses s' = mResponses (shared m) @ [rid r]"
      "concat (map issued new) = [rid r]" "concat (map erasing new) = []"
      "concat (map recorded new) = [rid r]"
      by (auto simp add: n_def P_def issued_def)
    from i show ?thesis unfolding goal x
      by (auto simp add: Track issued_def)
  next
    case (Install r)
    with Advance(2) have x: "length (fetches s') = n"
      "map rid (pending s') = P @ [rid r]" "mResponses s' = mResponses (shared m)"
      "concat (map issued new) = []" "concat (map erasing new) = []"
      "concat (map recorded new) = []"
      by (auto simp add: n_def P_def)
    from i have "distinct (P @ U1 @ [rid r] @ U2)" "\<forall>i\<in>set (P @ U1 @ [rid r] @ U2). i < n"
      "\<forall>i\<in>set (E1 @ E2). i < n \<and> i \<notin> set (P @ U1 @ [rid r] @ U2)"
      "set (P @ C1 @ [rid r] @ C2) \<subseteq> set (mResponses (shared m))"
      by (simp_all add: Install issued_def)
    from responses_install[OF this] show ?thesis unfolding goal x by simp
  next
    case (Erase j)
    with Advance(2) have x: "length (fetches s') = n"
      "map rid (pending s') = P"
      "mResponses s' = filter (\<lambda>r. r \<noteq> j) (mResponses (shared m))"
      "concat (map issued new) = []" "concat (map erasing new) = []"
      "concat (map recorded new) = []"
      by (auto simp add: n_def P_def)
    from i have d: "distinct (P @ U1 @ U2)" "\<forall>i\<in>set (P @ U1 @ U2). i < n"
      and e: "\<forall>i\<in>set (E1 @ [j] @ E2). i < n \<and> i \<notin> set (P @ (U1 @ U2))"
      and c: "set (P @ (C1 @ C2)) \<subseteq> set (mResponses (shared m))"
      by (simp_all add: Erase issued_def)
    from responses_erase[OF e c cu] d show ?thesis unfolding goal x by simp
  next
    case Other
    from i show ?thesis unfolding goal Other(1,2,3,4,5,6)
      by (simp add: Other(7,8,9) P_def[symmetric] n_def[symmetric])
  qed
next
  case (Finish i rp r)
  from find_SomeD[OF Finish(2)] have r: "r \<in> set (pending (shared m))" "rid r = i"
    by simp_all
  define P where "P = pending (shared m)"
  define U where "U = issued_responses m"
  define E where "E = concat (map erasing (accesses m))"
  define C where "C = concat (map recorded (accesses m))"
  define n where "n = length (fetches (shared m))"
  from assms(2) have i: "distinct (map rid P @ U)" "\<forall>i\<in>set (map rid P @ U). i < n"
    "\<forall>i\<in>set E. i < n \<and> i \<notin> set (map rid P @ U)"
    "set (map rid P @ C) \<subseteq> set (mResponses (shared m))"
    by (simp_all add: inv_responses_def P_def U_def E_def C_def n_def)
  from i(1) have d: "distinct (map rid (filter (\<lambda>x. rid x \<noteq> i) P))"
    by (simp add: distinct_map_filter)
  have u: "issued_responses m' = U" "concat (map recorded (accesses m')) = C"
    using plan_responses[of r rp] by (simp_all add: issued_responses_def Finish(4) U_def C_def)
  have e: "set (concat (map erasing (accesses m'))) \<subseteq> set E \<union> {i}"
    using plan_responses[of r rp] by (auto simp add: Finish(4) E_def r(2))
  have 1: "distinct (map rid (filter (\<lambda>x. rid x \<noteq> i) P) @ U)"
    using i(1) d by auto
  have 2: "\<forall>j\<in>set (map rid (filter (\<lambda>x. rid x \<noteq> i) P) @ U). j < n"
    using i(2) by auto
  have 3: "i < n \<and> i \<notin> set (map rid (filter (\<lambda>x. rid x \<noteq> i) P) @ U)"
    using i(1,2) r by (auto simp add: P_def)
  have 4: "\<forall>j\<in>set E. j < n \<and> j \<notin> set (map rid (filter (\<lambda>x. rid x \<noteq> i) P) @ U)"
    using i(3) by auto
  have 5: "set (map rid (filter (\<lambda>x. rid x \<noteq> i) P) @ C) \<subseteq> set (mResponses (shared m))"
    using i(4) by auto
  from 3 4 e have 6: "\<forall>j\<in>set (concat (map erasing (accesses m'))).
      j < n \<and> j \<notin> set (map rid (filter (\<lambda>x. rid x \<noteq> i) P) @ U)"
    by blast
  from 1 2 5 6 show ?thesis
    by (simp add: inv_responses_def u Finish(3) P_def[symmetric] n_def[symmetric])
next
  case CallCancel
  with assms(2) show ?thesis
    by (simp add: inv_responses_def issued_responses_def Cancel_plan_def issued_def)
qed

lemma inv_errs_step:
  assumes "move m e = Some m'" "inv_carried m" "inv_errs m"
  shows "inv_errs m'"
proof -
  have "failing m'"
    if "(\<exists>a\<in>set (accesses m'). failure_due a) \<or> (\<exists>r\<in>set (reports (shared m')). error r \<noteq> [])"
  proof (cases "(\<exists>a\<in>set (accesses m). failure_due a) \<or>
                (\<exists>r\<in>set (reports (shared m)). error r \<noteq> [])")
    case True
    with assms(3) mono_step[OF assms(1)] show ?thesis by (simp add: inv_errs_def)
  next
    case False
    then have z: "length (filter (\<lambda>r. error r \<noteq> []) (reports (shared m))) +
        length (filter failure_due (accesses m)) = 0"
      by (simp add: filter_empty_conv)
    from that have "0 < length (filter (\<lambda>r. error r \<noteq> []) (reports (shared m'))) +
        length (filter failure_due (accesses m'))"
      by (auto simp add: filter_empty_conv)
    with z count_step[OF assms(1,2)] have d: "download_fails m e"
      by (auto split: if_splits)
    from assms(1) show ?thesis
    proof (cases rule: move_cases)
      case (Finish i rp r)
      with d show ?thesis
        by (simp add: download_fails_def calls_OnFailure_def failing_def)
    qed (use d in \<open>simp_all add: download_fails_def\<close>)
  qed
  then show ?thesis by (simp add: inv_errs_def)
qed

text \<open>Executions: what holds of every state they reach.\<close>

lemma moves_cases:
  assumes "moves m (e # es) = Some m'"
  obtains m1 where "move m e = Some m1" "moves m1 es = Some m'"
  using assms by (auto split: option.splits)

lemma moves_mono:
  "moves m es = Some m' \<Longrightarrow>
     mMissingBlocks (shared m') = mMissingBlocks (shared m) \<and>
     (mFailed (shared m) \<longrightarrow> mFailed (shared m')) \<and>
     (mCancelled (shared m) \<longrightarrow> mCancelled (shared m')) \<and>
     (\<exists>new. reports (shared m') = reports (shared m) @ new)"
proof (induction es arbitrary: m)
  case Nil
  then show ?case by simp
next
  case (Cons e es)
  from Cons.prems obtain m1 where m1: "move m e = Some m1" "moves m1 es = Some m'"
    by (rule moves_cases)
  from mono_step[OF m1(1)] have "\<exists>new. reports (shared m1) = reports (shared m) @ new"
    by (metis append_take_drop_id)
  with mono_step[OF m1(1)] Cons.IH[OF m1(2)] show ?case by auto
qed

lemma machine_inv_step:
  assumes "move m e = Some m'" "machine_inv m"
  shows "machine_inv m'"
  using assms inv_tokens_step[OF assms(1)] inv_carried_step[OF assms(1)]
    inv_reports_step[OF assms(1)] inv_done_step[OF assms(1)] inv_errs_step[OF assms(1)]
    inv_responses_step[OF assms(1)]
  by (simp add: machine_inv_def)

lemma machine_inv_moves:
  "moves m es = Some m' \<Longrightarrow> machine_inv m \<Longrightarrow> machine_inv m'"
proof (induction es arbitrary: m)
  case Nil
  then show ?case by simp
next
  case (Cons e es)
  from Cons.prems(1) obtain m1 where m1: "move m e = Some m1" "moves m1 es = Some m'"
    by (rule moves_cases)
  from Cons.IH[OF m1(2) machine_inv_step[OF m1(1) Cons.prems(2)]] show ?case .
qed

lemma start_accesses:
  "accesses (start s) = [] \<or> accesses (start s) = [SchedLoop]"
  by (simp add: start_def accesses_def)

lemma machine_inv_start:
  "machine_inv (start (construct attach_ok statement_ok time db projectInfo snapshotInfo path))"
proof -
  let ?c = "construct attach_ok statement_ok time db projectInfo snapshotInfo path"
  note a = start_accesses[of ?c]
  have i: "inv_count ?c" "inv_tracked ?c"
    using session_inv_construct[of attach_ok statement_ok time db projectInfo snapshotInfo path]
    by (simp_all add: session_inv_def)
  have f: "\<not> mFailed ?c" "pending ?c = []"
    by (cases attach_ok statement_ok time db projectInfo snapshotInfo path rule: construct_cases;
        simp add: new_session_def)+
  have t: "inv_tokens (start ?c)"
    using a i f by (auto simp add: inv_tokens_def inv_count_def blocks_left_def blob_left_def
      failing_def start_def)
  have c: "inv_carried (start ?c)"
    using a by (auto simp add: inv_carried_def)
  have r: "inv_reports (start ?c)"
    by (cases attach_ok statement_ok time db projectInfo snapshotInfo path rule: construct_cases)
      (simp_all add: inv_reports_def start_def new_session_def report_ok_def report_shape_def)
  have d: "inv_done (start ?c)"
    using a f
    by (cases attach_ok statement_ok time db projectInfo snapshotInfo path rule: construct_cases)
      (auto simp add: inv_done_def start_def new_session_def failing_def blocks_left_def
         blob_left_def opens accesses_def)
  have e: "inv_errs (start ?c)"
    using a construct_reports[of attach_ok statement_ok time db projectInfo snapshotInfo path]
    by (auto simp add: inv_errs_def start_def list_all_iff failure_due_def)
  have p: "inv_responses (start ?c)"
    using a f by (auto simp add: inv_responses_def issued_responses_def start_def issued_def)
  from t c r d e p show ?thesis by (simp add: machine_inv_def)
qed

lemma moves_counts:
  "moves m es = Some m' \<Longrightarrow> machine_inv m \<Longrightarrow>
     length (filter cancelled (reports (shared m'))) +
       length (filter cancel_due (accesses m')) =
     length (filter cancelled (reports (shared m))) +
       length (filter cancel_due (accesses m)) + length (filter (\<lambda>e. e = CallCancel) es) \<and>
     length (filter (\<lambda>r. error r \<noteq> []) (reports (shared m'))) +
       length (filter failure_due (accesses m')) =
     length (filter (\<lambda>r. error r \<noteq> []) (reports (shared m))) +
       length (filter failure_due (accesses m)) + failed_downloads m es \<and>
     (mCancelled (shared m) \<longrightarrow>
        length (filter progress_report (reports (shared m'))) +
          length (filter past_test (accesses m')) \<le>
        length (filter progress_report (reports (shared m))) +
          length (filter past_test (accesses m))) \<and>
     (\<not> mCancelled (shared m') \<longrightarrow>
        length (filter (\<lambda>a. a = SetCancelled) (accesses m')) =
        length (filter (\<lambda>a. a = SetCancelled) (accesses m)) +
          length (filter (\<lambda>e. e = CallCancel) es)) \<and>
     int (notified (shared m')) + int (length (filter (\<lambda>a. a = NotifyCV) (accesses m'))) +
       mRequestsInProgress (shared m') + int (mNextRequestIndex (shared m)) =
     int (notified (shared m)) + int (length (filter (\<lambda>a. a = NotifyCV) (accesses m))) +
       mRequestsInProgress (shared m) + int (mNextRequestIndex (shared m')) +
       int (length (filter (\<lambda>e. e = CallCancel) es))"
proof (induction es arbitrary: m)
  case Nil
  then show ?case by simp
next
  case (Cons e es)
  from Cons.prems(1) obtain m1 where m1: "move m e = Some m1" "moves m1 es = Some m'"
    by (rule moves_cases)
  have c: "inv_carried m" using Cons.prems(2) by (simp add: machine_inv_def)
  note ih = Cons.IH[OF m1(2) machine_inv_step[OF m1(1) Cons.prems(2)]]
  have k: "mCancelled (shared m) \<longrightarrow> mCancelled (shared m1)"
    "mCancelled (shared m1) \<longrightarrow> mCancelled (shared m')"
    using mono_step[OF m1(1)] moves_mono[OF m1(2)] by simp_all
  define x :: nat where "x = (if e = CallCancel then 1 else 0)"
  have xi: "(if e = CallCancel then 1 else 0) = int x" by (simp add: x_def)
  define y :: nat where "y = (if download_fails m e then 1 else 0)"
  have fd: "failed_downloads m (e # es) = y + failed_downloads m1 es"
    using m1(1) by (simp add: y_def)
  have cc: "length (filter (\<lambda>e. e = CallCancel) (e # es)) =
            x + length (filter (\<lambda>e. e = CallCancel) es)"
    by (simp add: x_def)
  note st = count_step[OF m1(1) c, folded x_def y_def]
    cancel_step[OF m1(1), unfolded xi, folded x_def]
  from ih st k show ?case unfolding fd cc by auto
qed

text \<open>
  A thread that no other thread interrupts does what the member function does when it
  runs from its first line to its last.
\<close>

lemma alone_Nil [simp]: "alone n [] s = s"
  by (cases n) simp_all


lemma alone_RemoveRequest:
  "alone (Suc (Suc n)) (RemoveRequest_plan i @ rest) s = alone n rest (RemoveRequest i s)"
  by (simp add: RemoveRequest_plan_def RemoveRequest_def)

lemma alone_OnFailure:
  "alone (6 + n) (OnFailure_plan i err @ rest) s = alone n rest (OnFailure i err s)"
  by (simp add: OnFailure_plan_def RemoveRequest_plan_def OnFailure_def RemoveRequest_def
        exec_defs eval_nat_numeral)

lemma alone_ReportProgress:
  "\<exists>k\<le>5. \<forall>n rest. alone (k + n) (TestCancelled t # rest) s = alone n rest (ReportProgress t s)"
proof (cases "mCancelled s")
  case True
  then have "\<forall>n rest. alone (1 + n) (TestCancelled t # rest) s = alone n rest (ReportProgress t s)"
    by (simp add: ReportProgress_def)
  then show ?thesis by (intro exI[of _ 1]) simp
next
  case False
  show ?thesis
  proof (cases "mDownloadedBlocks s = mMissingBlocks s \<and> mProjectDownloaded s")
    case True
    with False have "\<forall>n rest. alone (5 + n) (TestCancelled t # rest) s =
        alone n rest (ReportProgress t s)"
      by (simp add: ReportProgress_def exec_defs eval_nat_numeral)
    then show ?thesis by (intro exI[of _ 5]) simp
  next
    case c: False
    with False have "\<forall>n rest. alone (4 + n) (TestCancelled t # rest) s =
        alone n rest (ReportProgress t s)"
      by (auto simp add: ReportProgress_def exec_defs eval_nat_numeral)
    then show ?thesis by (intro exI[of _ 4]) simp
  qed
qed

lemma alone_rejected:
  "alone 9 (OnFailure_plan i err @ RemoveRequest_plan i) s = RemoveRequest i (OnFailure i err s)"
  using alone_OnFailure[of 3 i err "RemoveRequest_plan i" s]
    alone_RemoveRequest[of 1 i "[]" "OnFailure i err s"]
  by (simp add: eval_nat_numeral)

lemma alone_report_remove:
  "alone 7 (TestCancelled t # RemoveRequest_plan i) s = RemoveRequest i (ReportProgress t s)"
proof -
  from alone_ReportProgress[of t s] obtain k where k: "k \<le> 5"
    "\<And>n rest. alone (k + n) (TestCancelled t # rest) s = alone n rest (ReportProgress t s)"
    by blast
  from k(1) have "2 \<le> 7 - k" by simp
  then obtain j where j1: "7 - k = Suc (Suc j)"
    by (metis add_2_eq_Suc le_Suc_ex)
  from k(1) have j2: "7 = k + (7 - k)" by simp
  note j = j1 j2
  have "alone 7 (TestCancelled t # RemoveRequest_plan i) s =
        alone (7 - k) (RemoveRequest_plan i) (ReportProgress t s)"
    using k(2)[of "7 - k" "RemoveRequest_plan i"] j(2) by simp
  also have "\<dots> = RemoveRequest i (ReportProgress t s)"
    using alone_RemoveRequest[of j i "[]" "ReportProgress t s"] by (simp add: j(1))
  finally show ?thesis .
qed

lemma handler_plan_cases:
  assumes "\<And>err. Q (OnFailure_plan i err) (OnFailure i err s)"
    and "\<And>dict doc.
           Q (CommitBlob dict doc # StoreProjectDownloaded # ReportProgress_plan (now rp))
             (ReportProgress (now rp)
                (s\<lparr>store := (store s)\<lparr>project := Some (dict, doc), autosave := False\<rparr>,
                   mProjectDownloaded := True\<rparr>))"
    and "\<And>h b.
           Q (CommitBlock h b # IncDownloaded # ReportProgress_plan (now rp))
             (ReportProgress (now rp)
                (s\<lparr>store := (store s)\<lparr>
                     block_hashes :=
                       AList.update (PId (mProjectInfo s), BlockId b) h (block_hashes (store s)),
                     sampleblocks := AList.update (BlockId b) b (sampleblocks (store s))\<rparr>,
                   mDownloadedBlocks := mDownloadedBlocks s + 1\<rparr>))"
  shows "Q (onSuccess_plan h i rp) (onSuccess h i rp s)"
proof (cases h)
  case ProjectBlobHandler
  have "Q (OnProjectBlobDownloaded_plan i rp) (OnProjectBlobDownloaded i rp s)"
    unfolding OnProjectBlobDownloaded_plan_def OnProjectBlobDownloaded_def Let_def
    using assms(2) by (simp add: assms(1))
  with ProjectBlobHandler show ?thesis
    by (simp add: onSuccess_plan_def onSuccess_def)
next
  case (BlockHandler hash)
  have "Q (OnBlockDownloaded_plan hash i rp) (OnBlockDownloaded hash i rp s)"
    unfolding OnBlockDownloaded_plan_def OnBlockDownloaded_def Let_def
    using assms(3) by (simp add: assms(1) split: option.split)
  with BlockHandler show ?thesis
    by (simp add: onSuccess_plan_def onSuccess_def)
qed

lemma alone_commit:
  assumes "exec a s = (s1, [])" "exec b s1 = (s2, [])"
  shows "alone 9 ((a # b # ReportProgress_plan t) @ RemoveRequest_plan i) s =
         RemoveRequest i (ReportProgress t s2)"
proof -
  have "alone 9 ((a # b # ReportProgress_plan t) @ RemoveRequest_plan i) s =
        alone 7 (TestCancelled t # RemoveRequest_plan i) s2"
    using assms by (simp add: eval_nat_numeral ReportProgress_plan_def)
  then show ?thesis by (simp add: alone_report_remove)
qed

lemma alone_onSuccess:
  "alone 9 (onSuccess_plan h i rp @ RemoveRequest_plan i) s = RemoveRequest i (onSuccess h i rp s)"
proof (rule handler_plan_cases, goal_cases)
  case (1 err)
  show ?case by (rule alone_rejected)
next
  case (2 dict doc)
  show ?case by (rule alone_commit) simp_all
next
  case (3 h b)
  have "exec IncDownloaded (fst (exec (CommitBlock h b) s)) =
        (s\<lparr>store := (store s)\<lparr>
              block_hashes :=
                AList.update (PId (mProjectInfo s), BlockId b) h (block_hashes (store s)),
              sampleblocks := AList.update (BlockId b) b (sampleblocks (store s))\<rparr>,
            mDownloadedBlocks := mDownloadedBlocks s + 1\<rparr>, [])"
    by (simp add: Let_def)
  then show ?case by (intro alone_commit[of _ _ "fst (exec (CommitBlock h b) s)"]) (simp_all add: Let_def)
qed

lemma alone_RequestFinishedCallback:
  "alone 9 (RequestFinishedCallback_plan r rp) s = RequestFinishedCallback r rp s"
proof -
  have 1: "alone 9 (RemoveRequest_plan i) s = RemoveRequest i s" for i
    using alone_RemoveRequest[of 7 i "[]" s] by (simp add: eval_nat_numeral)
  have 2: "alone 9 (OnFailure_plan i err) s = OnFailure i err s" for i err
    using alone_OnFailure[of 3 i err "[]" s] by simp
  have 3: "alone 9 [DoGet i u h n] s = DownloadBlob i u h n s" for i u h n
    by (simp add: eval_nat_numeral DownloadBlob_def Let_def)
  show ?thesis
    unfolding RequestFinishedCallback_plan_def RequestFinishedCallback_def
    by (simp add: 1 2 3 alone_onSuccess)
qed

lemma alone_RequestsThread_turn: "alone 5 [SchedLoop] s = RequestsThread_turn s"
  by (simp add: eval_nat_numeral RequestsThread_turn_def DownloadBlob_def Let_def)

section \<open>The claims\<close>

subsection \<open>C1: the short circuit\<close>

text \<open>
  C1 says that a session whose known-block set covers all the blocks of the snapshot,
  with the snapshot on record as synced, makes no request, starts no thread and reports
  completion once. The constructor tests whether the number of known hashes equals the
  length of the block list (\<open>short_circuit\<close> is the claim under this test, and
  \<open>covering_distinct\<close> says that the test is met when the known hashes cover a list
  without repeated hashes). A snapshot that lists the known block AA twice is covered and
  on record as synced, but one known hash is not two blocks: the constructor marks the
  project as downloading, emits no report, queues the project blob and starts the
  thread, whose first turn fetches the blob.
\<close>

theorem C1_repeated_hash_is_not_short_circuited:
  "set (map (\<lambda>b. ToUpper (Hash b)) (Blocks (example_snapshot [''AA'', ''AA''])))
     = CalculateKnownBlocks True example_store example_project (example_snapshot [''AA'', ''AA'']) \<and>
   known_condition example_store example_project (example_snapshot [''AA'', ''AA'']) \<and>
   reports (example_session [''AA'', ''AA'']) = [] \<and>
   mRequestsThread (example_session [''AA'', ''AA'']) = Running \<and>
   mRequests (example_session [''AA'', ''AA'']) = [(''f'', ProjectBlobHandler)] \<and>
   mMissingBlocks (example_session [''AA'', ''AA'']) = 1 \<and>
   map (SyncStatus \<circ> snd) (project_data (store (example_session [''AA'', ''AA''])))
     = [SyncStatusDownloading] \<and>
   map_option (map rurl \<circ> fetches) (run (example_session [''AA'', ''AA'']) [RequestsThreadTurn])
     = Some [''f'']"
  by code_simp

subsection \<open>C2: the retry budget\<close>

text \<open>
  C2 says that a request is fetched at most 3 times. The scheduler calls
  \<^verbatim>\<open>DownloadBlob\<close> with 3 retries, and the counter is tested against 0 after it was
  used, so a request that keeps failing with a server error is fetched 4 times: after
  three answers 503 the fourth fetch is on its way, with the counter at 0.
\<close>

theorem C2_counterexample:
  "map_option (attempts 0) (run (example_session [''B1'']) three_server_errors) = Some 4 \<and>
   map_option (map retries \<circ> fetches) (run (example_session [''B1'']) three_server_errors)
     = Some [3, 2, 1, 0]"
  by code_simp

text \<open>
  C2, amended. In every execution each request of the list is fetched at most 4 times,
  the first fetch and up to 3 retries. While a response is in flight the fetches made for
  its request and the retries it has left add up to 4. A server error (HTTP status 500 or
  above) or a transport error with retries left fetches the same URL again with the
  counter decremented and leaves \<^verbatim>\<open>mRequestsInProgress\<close> as it is. A client error (status below
  500), or a server or transport error with the counter at 0, takes the failure path:
  nothing more is fetched, the session is failed and an error is reported.
\<close>

theorem C2_retry_budget:
  assumes "run (construct attach_ok statement_ok time db projectInfo snapshotInfo path) evs
             = Some s"
  shows "(\<forall>i. attempts i s \<le> 4) \<and>
         (\<forall>r\<in>set (pending s). 0 \<le> retries r \<and> int (attempts (req r) s) + retries r = 4) \<and>
         (\<forall>r rp x.
            (getError rp = OtherError \<or> getError rp = HTTPError \<and> 500 \<le> getHTTPCode rp) \<and>
            0 < retries r \<longrightarrow>
              RequestFinishedCallback r rp x =
                DownloadBlob (req r) (rurl r) (handler r) (retries r - 1) x \<and>
              mRequestsInProgress (RequestFinishedCallback r rp x) = mRequestsInProgress x \<and>
              map rurl (fetches (RequestFinishedCallback r rp x)) =
                map rurl (fetches x) @ [rurl r]) \<and>
         (\<forall>r rp x.
            getError rp = HTTPError \<and> getHTTPCode rp < 500 \<or>
            (getError rp = HTTPError \<or> getError rp = OtherError) \<and> retries r \<le> 0 \<longrightarrow>
              fetches (RequestFinishedCallback r rp x) = fetches x \<and>
              mFailed (RequestFinishedCallback r rp x) \<and>
              error (last (reports (RequestFinishedCallback r rp x))) \<noteq> [])"
proof -
  have "session_inv s"
    using session_inv_run[OF assms session_inv_construct] .
  then have a: "inv_attempts s" by (simp add: session_inv_def)
  have 1: "\<forall>i. attempts i s \<le> 4"
    using a by (simp add: inv_attempts_def)
  have 2: "\<forall>r\<in>set (pending s). 0 \<le> retries r \<and> int (attempts (req r) s) + retries r = 4"
    using a by (simp add: inv_attempts_def)
  have 3: "RequestFinishedCallback r rp x =
             DownloadBlob (req r) (rurl r) (handler r) (retries r - 1) x \<and>
           mRequestsInProgress (RequestFinishedCallback r rp x) = mRequestsInProgress x \<and>
           map rurl (fetches (RequestFinishedCallback r rp x)) = map rurl (fetches x) @ [rurl r]"
    if "(getError rp = OtherError \<or> getError rp = HTTPError \<and> 500 \<le> getHTTPCode rp) \<and>
        0 < retries r" for r rp x
    using that by (auto simp add: RequestFinishedCallback_def DownloadBlob_def Let_def)
  have 4: "fetches (RequestFinishedCallback r rp x) = fetches x \<and>
           mFailed (RequestFinishedCallback r rp x) \<and>
           error (last (reports (RequestFinishedCallback r rp x))) \<noteq> []"
    if "getError rp = HTTPError \<and> getHTTPCode rp < 500 \<or>
        (getError rp = HTTPError \<or> getError rp = OtherError) \<and> retries r \<le> 0" for r rp x
    using that by (auto simp add: RequestFinishedCallback_def prims0)
  from 1 2 3 4 show ?thesis by blast
qed

theorem C2_retry_budget_witness:
  "run (example_session [''B1''])
     (three_server_errors @ [RequestFinished 3 (example_reply HTTPError 503 [])]) \<noteq> None \<and>
   attempts 0 (the (run (example_session [''B1''])
     (three_server_errors @ [RequestFinished 3 (example_reply HTTPError 503 [])]))) = 4 \<and>
   mFailed (the (run (example_session [''B1''])
     (three_server_errors @ [RequestFinished 3 (example_reply HTTPError 503 [])]))) \<and>
   attempts 0 (the (run (example_session [''B1''])
     (three_server_errors @ [RequestFinished 3 (example_reply HTTPError 503 [])]))) \<le> 4"
proof -
  let ?e = "three_server_errors @ [RequestFinished 3 (example_reply HTTPError 503 [])]"
  let ?s = "the (run (example_session [''B1'']) ?e)"
  have a: "run (example_session [''B1'']) ?e \<noteq> None" by code_simp
  then have r: "run (construct True True 0 example_store example_project
                  (example_snapshot [''B1'']) ''path'') ?e = Some ?s"
    by (simp add: example_session_def)
  have v: "attempts 0 ?s = 4" "mFailed ?s" by code_simp+
  from C2_retry_budget[OF r] have "attempts 0 ?s \<le> 4" by blast
  with a v show ?thesis by simp
qed

subsection \<open>C3: cancellation\<close>




subsection \<open>C4: reports after a failure or a cancellation\<close>




subsection \<open>C5: how many terminal reports\<close>

text \<open>
  C5 says that at most one report has completed true, at most one carries an error, and
  at most one has cancelled true with none after it. Every call of \<^verbatim>\<open>OnFailure\<close> and
  of \<^verbatim>\<open>Cancel\<close> emits its report, with completed true, whatever was emitted before: the
  four reports of \<open>cancels_and_failures\<close> have completed true, the first and the last are
  cancelled and the two between them carry an error. \<^verbatim>\<open>ReportProgress\<close> loads the blob
  flag and the counter after the commit of its own download: in \<open>two_successes\<close> the two
  last callbacks both find everything downloaded and both report success.
\<close>

theorem C5_counterexample:
  "map_option (map completed \<circ> reports \<circ> shared)
     (moves (start (example_session [''B1''])) cancels_and_failures)
       = Some [True, True, True, True] \<and>
   map_option (map cancelled \<circ> reports \<circ> shared)
     (moves (start (example_session [''B1''])) cancels_and_failures)
       = Some [True, False, False, True] \<and>
   map_option (map error \<circ> reports \<circ> shared)
     (moves (start (example_session [''B1''])) cancels_and_failures)
       = Some [[], ''Failed to download the cloud project: '',
               ''Failed to download the cloud project: '', []] \<and>
   map_option (map completed \<circ> reports \<circ> shared)
     (moves (start (example_session [''B1''])) two_successes) = Some [True, True] \<and>
   map_option (map success \<circ> reports \<circ> shared)
     (moves (start (example_session [''B1''])) two_successes) = Some [True, True]"
  by code_simp

text \<open>
  C5, amended. In every interleaved execution every report is of one of three kinds:
  cancelled, with completed true, success false and an empty error; with an error, with
  completed true, success false and cancelled false; or a progress report, with an
  empty error, cancelled false and completed equal to success. Every finished callback
  that calls \<^verbatim>\<open>OnFailure\<close> emits its own report with an error: these reports and the
  callbacks that have still to emit theirs are as many as the downloads that have
  failed. Every call of \<^verbatim>\<open>Cancel()\<close> emits its own cancelled report: these reports and
  the calls that have still to emit theirs are as many as the calls. A report of
  success is emitted only in a session in which no download has failed.
\<close>

theorem C5_terminal_reports:
  assumes "moves (start (construct attach_ok statement_ok time db projectInfo snapshotInfo path))
             es = Some m"
  shows "list_all report_shape (reports (shared m)) \<and>
         length (filter (\<lambda>r. error r \<noteq> []) (reports (shared m))) +
           length (filter failure_due (accesses m)) =
           failed_downloads
             (start (construct attach_ok statement_ok time db projectInfo snapshotInfo path)) es \<and>
         length (filter cancelled (reports (shared m))) +
           length (filter cancel_due (accesses m)) = length (filter (\<lambda>e. e = CallCancel) es) \<and>
         ((\<exists>r\<in>set (reports (shared m)). success r) \<longrightarrow>
            \<not> mFailed (shared m) \<and>
            failed_downloads
              (start (construct attach_ok statement_ok time db projectInfo snapshotInfo path)) es
              = 0)"
proof -
  let ?c = "construct attach_ok statement_ok time db projectInfo snapshotInfo path"
  have i0: "machine_inv (start ?c)" by (rule machine_inv_start)
  have i: "machine_inv m" by (rule machine_inv_moves[OF assms i0])
  have z: "filter cancelled (reports ?c) = []" "filter (\<lambda>r. error r \<noteq> []) (reports ?c) = []"
    using construct_reports[of attach_ok statement_ok time db projectInfo snapshotInfo path]
    by (simp_all add: list_all_iff filter_empty_conv)
  have s: "shared (start ?c) = ?c" by (simp add: start_def)
  have a0: "filter cancel_due (accesses (start ?c)) = []"
    "filter failure_due (accesses (start ?c)) = []"
    using start_accesses[of ?c] by (auto simp add: cancel_due_def failure_due_def)
  note n = moves_counts[OF assms i0, unfolded s a0, simplified z]
  have 1: "list_all report_shape (reports (shared m))"
    using i by (simp add: machine_inv_def inv_reports_def list_all_iff report_ok_def)
  have 2: "length (filter (\<lambda>r. error r \<noteq> []) (reports (shared m))) +
           length (filter failure_due (accesses m)) = failed_downloads (start ?c) es"
    using n by simp
  have 3: "length (filter cancelled (reports (shared m))) +
           length (filter cancel_due (accesses m)) = length (filter (\<lambda>e. e = CallCancel) es)"
    using n by simp
  have 4: "\<not> mFailed (shared m) \<and> failed_downloads (start ?c) es = 0"
    if "\<exists>r\<in>set (reports (shared m)). success r"
  proof -
    from i that have f: "\<not> failing m" by (simp add: machine_inv_def inv_done_def)
    with i have "filter (\<lambda>r. error r \<noteq> []) (reports (shared m)) = []"
      "filter failure_due (accesses m) = []"
      by (auto simp add: machine_inv_def inv_errs_def filter_empty_conv)
    with 2 f show ?thesis by (simp add: failing_def)
  qed
  from 1 2 3 4 show ?thesis by blast
qed

theorem C5_terminal_reports_witness:
  "moves (start (example_session [''B1''])) cancels_and_failures \<noteq> None \<and>
   accesses (the (moves (start (example_session [''B1''])) cancels_and_failures))
     = [SchedLoop] \<and>
   failed_downloads (start (example_session [''B1''])) cancels_and_failures = 2 \<and>
   length (filter (\<lambda>e. e = CallCancel) cancels_and_failures) = 2 \<and>
   length (filter (\<lambda>r. error r \<noteq> [])
     (reports (shared (the (moves (start (example_session [''B1''])) cancels_and_failures)))))
     = 2 \<and>
   length (filter cancelled
     (reports (shared (the (moves (start (example_session [''B1''])) cancels_and_failures)))))
     = 2"
proof -
  let ?m = "the (moves (start (example_session [''B1''])) cancels_and_failures)"
  have a: "moves (start (example_session [''B1''])) cancels_and_failures \<noteq> None" by code_simp
  then have r: "moves (start (construct True True 0 example_store example_project
                  (example_snapshot [''B1'']) ''path'')) cancels_and_failures = Some ?m"
    by (simp add: example_session_def)
  have v: "accesses ?m = [SchedLoop]"
    "failed_downloads (start (example_session [''B1''])) cancels_and_failures = 2"
    "length (filter (\<lambda>e. e = CallCancel) cancels_and_failures) = 2"
    by code_simp+
  note t = C5_terminal_reports[OF r]
  from t have 1: "length (filter (\<lambda>r. error r \<noteq> []) (reports (shared ?m))) +
           length (filter failure_due (accesses ?m)) =
           failed_downloads (start (construct True True 0 example_store example_project
             (example_snapshot [''B1'']) ''path'')) cancels_and_failures"
    by (elim conjE)
  from t have 2: "length (filter cancelled (reports (shared ?m))) +
           length (filter cancel_due (accesses ?m)) =
           length (filter (\<lambda>e. e = CallCancel) cancels_and_failures)"
    by (elim conjE)
  from 1 2 a v show ?thesis
    by (simp add: example_session_def[symmetric] cancel_due_def failure_due_def)
qed

subsection \<open>C6: malformed project blobs\<close>

text \<open>
  C6 says that after a malformed project blob the report of the failure has completed
  false. \<^verbatim>\<open>OnFailure\<close> reports completed true and success false, as it does for every
  failure: a payload of three bytes gives that report.
\<close>

theorem C6_counterexample:
  "map_option reports
     (run (example_session [''B1''])
        [RequestsThreadTurn, RequestFinished 0 (example_reply NoError 200 [1, 2, 3])]) =
     Some [\<lparr>downloadedBlocks = 0, missingBlocks = 1,
            error = ''Failed to download the cloud project'',
            projectBlobDownloaded = False, completed = True, success = False,
            cancelled = False\<rparr>]"
  by code_simp

text \<open>
  C6, amended. In every execution, when the download of the project blob finishes
  without a network error and its payload is shorter than 8 bytes, or its little-endian
  length prefix \<open>L\<close> has \<open>8 + L\<close> within 64 bits and beyond the length of the payload,
  the commit is rejected without a retry: nothing is fetched, the store is left as it
  was, the session is failed, the blob flag stays false, and one report is emitted with
  a non-empty error, projectBlobDownloaded false, success false and completed true.
  (For a prefix \<open>L\<close> so large that \<open>8 + L\<close> wraps around in 64 bits the length test
  of the source passes, see \<open>blob_length_test_wraps\<close>; the amended claim leaves these
  payloads out.)
\<close>

theorem C6_malformed_blob:
  assumes "run (construct attach_ok statement_ok time db projectInfo snapshotInfo path) evs
             = Some s"
    and "find (\<lambda>x. rid x = i) (pending s) = Some r"
    and "handler r = ProjectBlobHandler"
    and "getError rp = NoError"
    and "length (readAll rp) < 8 \<or>
         8 + unat (read_dictSize (readAll rp)) < 2 ^ 64 \<and>
         length (readAll rp) < 8 + unat (read_dictSize (readAll rp))"
  shows "step s (RequestFinished i rp) \<noteq> None \<and>
         reports (the (step s (RequestFinished i rp))) = reports s @
           [\<lparr>downloadedBlocks = mDownloadedBlocks s, missingBlocks = mMissingBlocks s,
             error = ''Failed to download the cloud project'',
             projectBlobDownloaded = False, completed = True, success = False,
             cancelled = False\<rparr>] \<and>
         mFailed (the (step s (RequestFinished i rp))) \<and>
         \<not> mProjectDownloaded (the (step s (RequestFinished i rp))) \<and>
         store (the (step s (RequestFinished i rp))) = store s \<and>
         fetches (the (step s (RequestFinished i rp))) = fetches s \<and>
         pending (the (step s (RequestFinished i rp))) = filter (\<lambda>x. rid x \<noteq> i) (pending s)"
proof -
  let ?s0 = "s\<lparr>pending := filter (\<lambda>x. rid x \<noteq> i) (pending s)\<rparr>"
  have r: "r \<in> set (pending s)" "rid r = i"
    using find_SomeD[OF assms(2)] by simp_all
  have "session_inv s"
    using session_inv_run[OF assms(1) session_inv_construct] .
  then have "blob_open s \<le> 1" by (simp add: session_inv_def inv_count_def)
  moreover have "1 \<le> blob_count (in_flight s)"
    using pending_removed(2)[OF r(1)] assms(3) by (simp add: in_flight_def)
  ultimately have d: "\<not> mProjectDownloaded s"
    by (auto simp add: blob_open_def split: if_splits)
  have "step s (RequestFinished i rp) =
          Some (RemoveRequest i (OnFailure i ''Failed to download the cloud project'' ?s0))"
    using assms(2,3,4) r(2) malformed_blob[OF assms(5), of i ?s0]
    by (simp add: step_def RequestFinishedCallback_def onSuccess_def)
  then show ?thesis using d by (simp add: prims0)
qed

theorem C6_malformed_blob_witness:
  "run (example_session [''B1'']) [RequestsThreadTurn] \<noteq> None \<and>
   step (the (run (example_session [''B1'']) [RequestsThreadTurn]))
     (RequestFinished 0 (example_reply NoError 200 [9, 0, 0, 0, 0, 0, 0, 0, 7])) \<noteq> None \<and>
   map error (reports (the (step (the (run (example_session [''B1'']) [RequestsThreadTurn]))
     (RequestFinished 0 (example_reply NoError 200 [9, 0, 0, 0, 0, 0, 0, 0, 7])))))
     = [''Failed to download the cloud project''] \<and>
   mFailed (the (step (the (run (example_session [''B1'']) [RequestsThreadTurn]))
     (RequestFinished 0 (example_reply NoError 200 [9, 0, 0, 0, 0, 0, 0, 0, 7])))) \<and>
   project (store (the (step (the (run (example_session [''B1'']) [RequestsThreadTurn]))
     (RequestFinished 0 (example_reply NoError 200 [9, 0, 0, 0, 0, 0, 0, 0, 7]))))) = None"
proof -
  let ?s = "the (run (example_session [''B1'']) [RequestsThreadTurn])"
  let ?rp = "example_reply NoError 200 [9, 0, 0, 0, 0, 0, 0, 0, 7]"
  let ?r = "\<lparr>rid = 0, req = 0, rurl = ''f'', handler = ProjectBlobHandler, retries = 3\<rparr>"
  have a: "run (example_session [''B1'']) [RequestsThreadTurn] \<noteq> None" by code_simp
  then have r: "run (construct True True 0 example_store example_project
                  (example_snapshot [''B1'']) ''path'') [RequestsThreadTurn] = Some ?s"
    by (simp add: example_session_def)
  have f: "find (\<lambda>x. rid x = 0) (pending ?s) = Some ?r" by code_simp
  have h: "handler ?r = ProjectBlobHandler" "getError ?rp = NoError"
    by (simp_all add: example_reply_def)
  have l: "length (readAll ?rp) < 8 \<or>
           8 + unat (read_dictSize (readAll ?rp)) < 2 ^ 64 \<and>
           length (readAll ?rp) < 8 + unat (read_dictSize (readAll ?rp))"
    by (simp add: example_reply_def read_dictSize_def)
  have v: "map error (reports ?s) = []" "project (store ?s) = None" by code_simp+
  from C6_malformed_blob[OF r f h l] a v show ?thesis by simp
qed

subsection \<open>C7: the list of pending requests\<close>

text \<open>
  C7. A session that is attached and not short-circuited has, from its construction on
  and unchanged by every execution, the request list that starts with the project blob
  and continues with the blocks in snapshot order without those whose upper-case hash is
  in the known-block set. With three blocks of which exactly one is known this makes
  three requests and \<^verbatim>\<open>mMissingBlocks\<close> 2.
\<close>

theorem C7_request_list:
  assumes "attach_ok"
    and "\<not> (card (CalculateKnownBlocks statement_ok db projectInfo snapshotInfo)
               = length (Blocks snapshotInfo) \<and>
            known_condition db projectInfo snapshotInfo)"
    and "run (construct attach_ok statement_ok time db projectInfo snapshotInfo path) evs
           = Some s"
  shows "mRequests s =
           (FileUrl snapshotInfo, ProjectBlobHandler) #
           map (\<lambda>b. (Url b, BlockHandler (ToUpper (Hash b))))
             (filter (\<lambda>b. ToUpper (Hash b) \<notin>
                        CalculateKnownBlocks statement_ok db projectInfo snapshotInfo)
                (Blocks snapshotInfo)) \<and>
         mRequests s =
           mRequests (construct attach_ok statement_ok time db projectInfo snapshotInfo path) \<and>
         (length (Blocks snapshotInfo) = 3 \<and>
          length (filter (\<lambda>b. ToUpper (Hash b) \<in>
                        CalculateKnownBlocks statement_ok db projectInfo snapshotInfo)
                    (Blocks snapshotInfo)) = 1 \<longrightarrow>
          length (mRequests s) = 3 \<and> mMissingBlocks s = 2)"
proof -
  let ?c = "construct attach_ok statement_ok time db projectInfo snapshotInfo path"
  let ?K = "CalculateKnownBlocks statement_ok db projectInfo snapshotInfo"
  have c: "mRequests ?c = (FileUrl snapshotInfo, ProjectBlobHandler) #
             block_requests ?K (Blocks snapshotInfo)"
    "mMissingBlocks ?c = length (Blocks snapshotInfo) - card ?K"
    using assms(1,2)
    by (cases attach_ok statement_ok time db projectInfo snapshotInfo path
          rule: construct_cases; simp)+
  have f: "mRequests s = mRequests ?c" "mMissingBlocks s = mMissingBlocks ?c"
    using frame_run[OF assms(3)] by simp_all
  have "length (mRequests s) = 3 \<and> mMissingBlocks s = 2"
    if "length (Blocks snapshotInfo) = 3"
      and "length (filter (\<lambda>b. ToUpper (Hash b) \<in> ?K) (Blocks snapshotInfo)) = 1"
  proof -
    have "card ?K = 1"
      by (rule single_known_entry[OF CalculateKnownBlocks_remote that(2)])
    moreover have "length (block_requests ?K (Blocks snapshotInfo)) = 2"
      using block_requests_length[of ?K "Blocks snapshotInfo"] that by simp
    ultimately show ?thesis using that(1) by (simp add: f c)
  qed
  then show ?thesis by (simp add: f c block_requests_def)
qed

theorem C7_request_list_witness:
  "run (example_session [''B1'', ''aa'', ''B2''])
     [RequestsThreadTurn, RequestsThreadTurn, RequestsThreadTurn, RequestsThreadTurn] \<noteq> None \<and>
   mRequests (the (run (example_session [''B1'', ''aa'', ''B2''])
     [RequestsThreadTurn, RequestsThreadTurn, RequestsThreadTurn, RequestsThreadTurn])) =
     [(''f'', ProjectBlobHandler), (''u/B1'', BlockHandler ''B1''), (''u/B2'', BlockHandler ''B2'')] \<and>
   mMissingBlocks (the (run (example_session [''B1'', ''aa'', ''B2''])
     [RequestsThreadTurn, RequestsThreadTurn, RequestsThreadTurn, RequestsThreadTurn])) = 2 \<and>
   map rurl (fetches (the (run (example_session [''B1'', ''aa'', ''B2''])
     [RequestsThreadTurn, RequestsThreadTurn, RequestsThreadTurn, RequestsThreadTurn]))) =
     [''f'', ''u/B1'', ''u/B2'']"
proof -
  let ?snap = "example_snapshot [''B1'', ''aa'', ''B2'']"
  let ?c = "example_session [''B1'', ''aa'', ''B2'']"
  let ?e = "[RequestsThreadTurn, RequestsThreadTurn, RequestsThreadTurn, RequestsThreadTurn]"
  have a: "run ?c ?e \<noteq> None" by code_simp
  then have r: "run (construct True True 0 example_store example_project ?snap ''path'') ?e
                  = Some (the (run ?c ?e))"
    by (simp add: example_session_def)
  have h: "\<not> (card (CalculateKnownBlocks True example_store example_project ?snap)
               = length (Blocks ?snap) \<and>
            known_condition example_store example_project ?snap)"
    by code_simp
  have l: "length (Blocks ?snap) = 3 \<and>
     length (filter (\<lambda>b. ToUpper (Hash b) \<in>
        CalculateKnownBlocks True example_store example_project ?snap) (Blocks ?snap)) = 1"
    by code_simp
  have k: "filter (\<lambda>b. ToUpper (Hash b) \<notin>
        CalculateKnownBlocks True example_store example_project ?snap) (Blocks ?snap)
        = [block_named ''B1'', block_named ''B2'']"
    by code_simp
  have u: "ToUpper ''B1'' = ''B1''" "ToUpper ''B2'' = ''B2''"
    "FileUrl ?snap = ''f''"
    "map rurl (fetches (the (run ?c ?e))) = [''f'', ''u/B1'', ''u/B2'']"
    by code_simp+
  from C7_request_list[OF TrueI h r] a l u show ?thesis
    by (simp add: k block_named_def)
qed

subsection \<open>C8: the counter of downloaded blocks\<close>

text \<open>
  C8. Along every execution of a session, \<^verbatim>\<open>mDownloadedBlocks\<close> grows by exactly one for every
  finished block download that is decompressed and committed and by nothing else, so it
  never decreases; it never exceeds \<^verbatim>\<open>mMissingBlocks\<close>, which keeps the value the
  constructor gave it.
\<close>

theorem C8_downloaded_blocks:
  assumes "run (construct attach_ok statement_ok time db projectInfo snapshotInfo path) evs
             = Some s"
    and "run s evs' = Some s'"
  shows "mDownloadedBlocks s' = mDownloadedBlocks s + committed_blocks s evs' \<and>
         mDownloadedBlocks s \<le> mDownloadedBlocks s' \<and>
         mDownloadedBlocks s' \<le> mMissingBlocks s' \<and>
         mMissingBlocks s' =
           mMissingBlocks (construct attach_ok statement_ok time db projectInfo snapshotInfo path) \<and>
         mMissingBlocks s =
           mMissingBlocks (construct attach_ok statement_ok time db projectInfo snapshotInfo path)"
proof -
  have "session_inv s'"
    using session_inv_run[OF assms(2) session_inv_run[OF assms(1) session_inv_construct]] .
  then have "mDownloadedBlocks s' \<le> mMissingBlocks s'"
    by (simp add: session_inv_def downloaded_le_missing)
  with downloaded_run[OF assms(2)] frame_run[OF assms(1)] frame_run[OF assms(2)]
  show ?thesis by simp
qed

theorem C8_downloaded_blocks_witness:
  "run (example_session [''AA'', ''B1'', ''B2''])
     [RequestsThreadTurn, RequestsThreadTurn, RequestFinished 0 (example_reply NoError 200 zero_prefix)]
     \<noteq> None \<and>
   run (the (run (example_session [''AA'', ''B1'', ''B2''])
     [RequestsThreadTurn, RequestsThreadTurn, RequestFinished 0 (example_reply NoError 200 zero_prefix)]))
     [RequestFinished 1 (example_reply NoError 200 [])] \<noteq> None \<and>
   mDownloadedBlocks (the (run (example_session [''AA'', ''B1'', ''B2''])
     [RequestsThreadTurn, RequestsThreadTurn, RequestFinished 0 (example_reply NoError 200 zero_prefix)]))
     = 0 \<and>
   mDownloadedBlocks (the (run (the (run (example_session [''AA'', ''B1'', ''B2''])
     [RequestsThreadTurn, RequestsThreadTurn, RequestFinished 0 (example_reply NoError 200 zero_prefix)]))
     [RequestFinished 1 (example_reply NoError 200 [])])) = 1 \<and>
   mMissingBlocks (the (run (the (run (example_session [''AA'', ''B1'', ''B2''])
     [RequestsThreadTurn, RequestsThreadTurn, RequestFinished 0 (example_reply NoError 200 zero_prefix)]))
     [RequestFinished 1 (example_reply NoError 200 [])])) = 2"
proof -
  let ?c = "example_session [''AA'', ''B1'', ''B2'']"
  let ?e = "[RequestsThreadTurn, RequestsThreadTurn,
             RequestFinished 0 (example_reply NoError 200 zero_prefix)]"
  let ?e' = "[RequestFinished 1 (example_reply NoError 200 [])]"
  have a: "run ?c ?e \<noteq> None" by code_simp
  have b: "run (the (run ?c ?e)) ?e' \<noteq> None" by code_simp
  have v: "mDownloadedBlocks (the (run ?c ?e)) = 0"
    "committed_blocks (the (run ?c ?e)) ?e' = 1"
    "mMissingBlocks ?c = 2"
    by code_simp+
  from a have r: "run (construct True True 0 example_store example_project
        (example_snapshot [''AA'', ''B1'', ''B2'']) ''path'') ?e = Some (the (run ?c ?e))"
    by (simp add: example_session_def)
  from b have r': "run (the (run ?c ?e)) ?e' = Some (the (run (the (run ?c ?e)) ?e'))"
    by simp
  from C8_downloaded_blocks[OF r r'] a b v show ?thesis
    by (simp add: example_session_def)
qed

subsection \<open>C9: the concurrency ceiling\<close>

text \<open>
  C9. In every state that an execution of a session reaches, \<^verbatim>\<open>mRequestsInProgress\<close> is at
  most 6, and so is the number of responses in flight. A turn of the scheduler that finds
  the counter at the ceiling while the session still wants requests waits, which changes
  nothing; the counter only grows by a turn that found it below the ceiling.
\<close>

theorem C9_in_flight_ceiling:
  assumes "run (construct attach_ok statement_ok time db projectInfo snapshotInfo path) evs
             = Some s"
  shows "mRequestsInProgress s \<le> MAX_CONCURRENT_REQUESTS \<and>
         int (length (pending s)) \<le> MAX_CONCURRENT_REQUESTS \<and>
         (WantsNextRequest s \<and> MAX_CONCURRENT_REQUESTS \<le> mRequestsInProgress s \<longrightarrow>
            RequestsThread_turn s = s) \<and>
         (mRequestsInProgress (RequestsThread_turn s) > mRequestsInProgress s \<longrightarrow>
            mRequestsInProgress s < MAX_CONCURRENT_REQUESTS \<and> WantsNextRequest s)"
proof -
  have "session_inv s"
    using session_inv_run[OF assms session_inv_construct] .
  then have "inv_flight s" by (simp add: session_inv_def)
  then have "mRequestsInProgress s \<le> MAX_CONCURRENT_REQUESTS"
    "int (length (pending s)) \<le> MAX_CONCURRENT_REQUESTS"
    by (simp_all add: inv_flight_def MAX_CONCURRENT_REQUESTS_def)
  moreover have "WantsNextRequest s \<and> MAX_CONCURRENT_REQUESTS \<le> mRequestsInProgress s \<longrightarrow>
            RequestsThread_turn s = s"
    by (simp add: RequestsThread_turn_def)
  moreover have "mRequestsInProgress (RequestsThread_turn s) > mRequestsInProgress s \<longrightarrow>
            mRequestsInProgress s < MAX_CONCURRENT_REQUESTS \<and> WantsNextRequest s"
    by (simp add: RequestsThread_turn_def DownloadBlob_def Let_def)
  ultimately show ?thesis by blast
qed

theorem C9_in_flight_ceiling_witness:
  "run (example_session [''B1'', ''B2'', ''B3'', ''B4'', ''B5'', ''B6'', ''B7'']) seven_turns \<noteq> None \<and>
   mRequestsInProgress
     (the (run (example_session [''B1'', ''B2'', ''B3'', ''B4'', ''B5'', ''B6'', ''B7'']) seven_turns)) = 6 \<and>
   mNextRequestIndex
     (the (run (example_session [''B1'', ''B2'', ''B3'', ''B4'', ''B5'', ''B6'', ''B7'']) seven_turns)) = 6 \<and>
   mRequestsInProgress
     (the (run (example_session [''B1'', ''B2'', ''B3'', ''B4'', ''B5'', ''B6'', ''B7'']) seven_turns))
     \<le> MAX_CONCURRENT_REQUESTS"
proof -
  let ?s = "the (run (example_session [''B1'', ''B2'', ''B3'', ''B4'', ''B5'', ''B6'', ''B7'']) seven_turns)"
  have ok: "run (example_session [''B1'', ''B2'', ''B3'', ''B4'', ''B5'', ''B6'', ''B7'']) seven_turns \<noteq> None"
    by code_simp
  then have r: "run (construct True True 0 example_store example_project
                 (example_snapshot [''B1'', ''B2'', ''B3'', ''B4'', ''B5'', ''B6'', ''B7'']) ''path'')
               seven_turns = Some ?s"
    by (simp add: example_session_def)
  have v: "mRequestsInProgress ?s = 6" "mNextRequestIndex ?s = 6"
    by code_simp+
  from C9_in_flight_ceiling[OF r] ok v show ?thesis by simp
qed

subsection \<open>C10: a known hash that occurs twice\<close>

text \<open>
  C10 ends with: no report ever has completed true. The reports of failures and of
  \<^verbatim>\<open>Cancel()\<close> have completed true in every session. With the blocks aa and AA, both
  known as AA, a client error for the project blob gives such a report.
\<close>

theorem C10_counterexample:
  "map_option reports
     (run (example_session [''aa'', ''AA''])
        [RequestsThreadTurn, RequestFinished 0 (example_reply HTTPError 404 [])]) =
     Some [\<lparr>downloadedBlocks = 0, missingBlocks = 1,
            error = ''Failed to download the cloud project: '',
            projectBlobDownloaded = False, completed = True, success = False,
            cancelled = False\<rparr>]"
  by code_simp

text \<open>
  C10, amended. \<^verbatim>\<open>mMissingBlocks\<close> is the length of the block list minus the number of
  known hashes, while a block request is left out for every entry of the list whose
  upper-case hash is known. When two entries of the list have the same upper-case hash
  and it is known, the session is not short-circuited, \<^verbatim>\<open>mMissingBlocks\<close> is greater
  than the number of block requests, \<^verbatim>\<open>mDownloadedBlocks\<close> stays below \<^verbatim>\<open>mMissingBlocks\<close>
  in every execution, and no report ever has success true; the only reports with
  completed true are those of failures and cancellations.
\<close>

theorem C10_duplicate_known_hash:
  assumes "attach_ok"
    and "Blocks snapshotInfo = xs @ b1 # ys @ b2 # zs"
    and "ToUpper (Hash b1) = ToUpper (Hash b2)"
    and "ToUpper (Hash b1) \<in> CalculateKnownBlocks statement_ok db projectInfo snapshotInfo"
    and "run (construct attach_ok statement_ok time db projectInfo snapshotInfo path) evs
           = Some s"
  shows "mMissingBlocks s =
           length (Blocks snapshotInfo) -
           card (CalculateKnownBlocks statement_ok db projectInfo snapshotInfo) \<and>
         length (filter (\<lambda>q. snd q \<noteq> ProjectBlobHandler) (mRequests s)) < mMissingBlocks s \<and>
         mDownloadedBlocks s < mMissingBlocks s \<and>
         (\<forall>r\<in>set (reports s). \<not> success r \<and> (completed r \<longrightarrow> cancelled r \<or> error r \<noteq> []))"
proof -
  let ?c = "construct attach_ok statement_ok time db projectInfo snapshotInfo path"
  let ?K = "CalculateKnownBlocks statement_ok db projectInfo snapshotInfo"
  let ?bs = "Blocks snapshotInfo"
  have k: "card ?K < length (filter (\<lambda>b. ToUpper (Hash b) \<in> ?K) ?bs)"
    by (rule duplicate_known_entry[OF CalculateKnownBlocks_remote assms(2,3,4)])
  have l: "length (block_requests ?K ?bs) + length (filter (\<lambda>b. ToUpper (Hash b) \<in> ?K) ?bs)
             = length ?bs"
    by (rule block_requests_length)
  from k l have ne: "card ?K \<noteq> length ?bs" by simp
  have c: "mRequests ?c = (FileUrl snapshotInfo, ProjectBlobHandler) # block_requests ?K ?bs"
    "mMissingBlocks ?c = length ?bs - card ?K"
    using assms(1) ne
    by (cases attach_ok statement_ok time db projectInfo snapshotInfo path
          rule: construct_cases; simp)+
  have f: "mRequests s = mRequests ?c" "mMissingBlocks s = mMissingBlocks ?c"
    using frame_run[OF assms(5)] by simp_all
  have n: "block_count (map snd (mRequests s)) = length (block_requests ?K ?bs)"
    by (simp add: f c block_requests_count)
  have n': "length (filter (\<lambda>q. snd q \<noteq> ProjectBlobHandler) (mRequests s)) =
            block_count (map snd (mRequests s))"
    by (simp add: block_count_def filter_map o_def)
  have lt: "length (block_requests ?K ?bs) < mMissingBlocks s"
    using k l by (simp add: f c)
  have i: "session_inv s"
    using session_inv_run[OF assms(5) session_inv_construct] .
  then have "mDownloadedBlocks s \<le> block_count (map snd (mRequests s))"
    by (simp add: session_inv_def inv_count_def blocks_open_def)
  with n lt have d: "mDownloadedBlocks s < mMissingBlocks s" by simp
  with i have "filter success (reports s) = []"
    by (auto simp add: session_inv_def inv_success_def)
  then have "\<forall>r\<in>set (reports s). \<not> success r"
    by (simp add: filter_empty_conv)
  moreover have "\<forall>r\<in>set (reports s). report_shape r"
    using shape_run[OF assms(5)] by (simp add: list_all_iff)
  ultimately have "\<forall>r\<in>set (reports s).
      \<not> success r \<and> (completed r \<longrightarrow> cancelled r \<or> error r \<noteq> [])"
    by (auto simp add: report_shape_def)
  with d lt n n' show ?thesis by (simp add: f c)
qed

theorem C10_duplicate_known_hash_witness:
  "run (example_session [''aa'', ''AA''])
     [RequestsThreadTurn, RequestFinished 0 (example_reply NoError 200 zero_prefix),
      RequestsThreadTurn] \<noteq> None \<and>
   mRequests (the (run (example_session [''aa'', ''AA''])
     [RequestsThreadTurn, RequestFinished 0 (example_reply NoError 200 zero_prefix),
      RequestsThreadTurn])) = [(''f'', ProjectBlobHandler)] \<and>
   mMissingBlocks (the (run (example_session [''aa'', ''AA''])
     [RequestsThreadTurn, RequestFinished 0 (example_reply NoError 200 zero_prefix),
      RequestsThreadTurn])) = 1 \<and>
   mRequestsThread (the (run (example_session [''aa'', ''AA''])
     [RequestsThreadTurn, RequestFinished 0 (example_reply NoError 200 zero_prefix),
      RequestsThreadTurn])) = Exited \<and>
   map completed (reports (the (run (example_session [''aa'', ''AA''])
     [RequestsThreadTurn, RequestFinished 0 (example_reply NoError 200 zero_prefix),
      RequestsThreadTurn]))) = [False] \<and>
   mDownloadedBlocks (the (run (example_session [''aa'', ''AA''])
     [RequestsThreadTurn, RequestFinished 0 (example_reply NoError 200 zero_prefix),
      RequestsThreadTurn]))
   < mMissingBlocks (the (run (example_session [''aa'', ''AA''])
     [RequestsThreadTurn, RequestFinished 0 (example_reply NoError 200 zero_prefix),
      RequestsThreadTurn]))"
proof -
  let ?snap = "example_snapshot [''aa'', ''AA'']"
  let ?e = "[RequestsThreadTurn, RequestFinished 0 (example_reply NoError 200 zero_prefix),
             RequestsThreadTurn]"
  let ?s = "the (run (example_session [''aa'', ''AA'']) ?e)"
  have a: "run (example_session [''aa'', ''AA'']) ?e \<noteq> None" by code_simp
  then have r: "run (construct True True 0 example_store example_project ?snap ''path'') ?e
                  = Some ?s"
    by (simp add: example_session_def)
  have b: "Blocks ?snap = [] @ block_named ''aa'' # [] @ block_named ''AA'' # []"
    by (simp add: example_snapshot_def)
  have u: "ToUpper (Hash (block_named ''aa'')) = ToUpper (Hash (block_named ''AA''))"
    "ToUpper (Hash (block_named ''aa'')) \<in>
       CalculateKnownBlocks True example_store example_project ?snap"
    by code_simp+
  have v: "mRequests ?s = [(''f'', ProjectBlobHandler)]" "mMissingBlocks ?s = 1"
    "mRequestsThread ?s = Exited" "map completed (reports ?s) = [False]"
    by code_simp+
  from C10_duplicate_known_hash[OF TrueI b u r]
  have "mDownloadedBlocks ?s < mMissingBlocks ?s" by blast
  with a v show ?thesis by simp
qed

end
